theory Spec2Isabelle
  imports Complex_Main
begin

section \<open>The WatchDog of node-opcua-utils (source/watchdog.ts)\<close>

text \<open>
  The module keeps three kinds of JavaScript objects that point at each other: WatchDog
  instances, the subscribers handed in by the caller, and one \<open>IWatchdogData2\<close> object per
  registration, which is reachable both from the table of the WatchDog and from the
  \<open>_watchDogData\<close> field of its subscriber. The model therefore has an explicit store:
  every object lives at an address, and a field that holds an object holds its address.
  A leading underscore of a source name is dropped (\<open>_watchDog\<close> is \<open>watchDog\<close>,
  \<open>_visit_subscriber\<close> is \<open>visit_subscriber\<close>), since an Isabelle name cannot start with one.
\<close>

type_synonym wid = nat
type_synonym sid = nat
type_synonym did = nat

subsection \<open>JavaScript numbers, as far as the module uses them\<close>

text \<open>
  A value of TypeScript type \<open>number\<close>: a finite number, \<open>NaN\<close> or one of the infinities.
  A finite number is the real value of the double.
  \<open>truthy\<close> is the test made by \<open>||\<close>, \<open>isNumber\<close> is underscore's \<open>_.isNumber\<close>, which
  accepts every value of this type, and \<open>greater x n\<close> is \<open>x > n\<close> for a finite \<open>x\<close>; a
  comparison of doubles does not round.
\<close>

datatype number = Finite real | NaN | PosInfinity | NegInfinity

fun truthy :: "number \<Rightarrow> bool" where
  "truthy (Finite x) = (x \<noteq> 0)"
| "truthy NaN = False"
| "truthy PosInfinity = True"
| "truthy NegInfinity = True"

definition or_else :: "number \<Rightarrow> number \<Rightarrow> number" where
  "or_else a b = (if truthy a then a else b)"

fun isNumber :: "number \<Rightarrow> bool" where
  "isNumber n = True"

fun greater :: "real \<Rightarrow> number \<Rightarrow> bool" where
  "greater x (Finite y) = (y < x)"
| "greater x NaN = False"
| "greater x PosInfinity = False"
| "greater x NegInfinity = True"

subsection \<open>Objects with integer keys\<close>

text \<open>
  \<open>{ [id: number]: V }\<close> is an association list in the order in which JavaScript
  enumerates integer keys, which is ascending. \<open>obj_set\<close> is \<open>o[k] = v\<close>, \<open>obj_delete\<close> is
  \<open>delete o[k]\<close>, \<open>obj_keys\<close> is \<open>Object.keys(o)\<close> and \<open>obj_values\<close> the values in the order
  in which underscore's \<open>_.filter\<close> visits them.
\<close>

fun obj_set :: "nat \<Rightarrow> 'v \<Rightarrow> (nat \<times> 'v) list \<Rightarrow> (nat \<times> 'v) list" where
  "obj_set k v [] = [(k, v)]"
| "obj_set k v ((k', v') # m) =
     (if k = k' then (k, v) # m
      else if k < k' then (k, v) # (k', v') # m
      else (k', v') # obj_set k v m)"

definition obj_delete :: "nat \<Rightarrow> (nat \<times> 'v) list \<Rightarrow> (nat \<times> 'v) list" where
  "obj_delete k m = filter (\<lambda>kv. fst kv \<noteq> k) m"

definition obj_keys :: "(nat \<times> 'v) list \<Rightarrow> nat list" where
  "obj_keys m = map fst m"

definition obj_values :: "(nat \<times> 'v) list \<Rightarrow> 'v list" where
  "obj_values m = map snd m"

definition hasOwnProperty :: "(nat \<times> 'v) list \<Rightarrow> nat \<Rightarrow> bool" where
  "hasOwnProperty m k = (k \<in> set (obj_keys m))"

subsection \<open>The data model\<close>

text \<open>
  \<open>IWatchdogData2\<close> and \<open>ISubscriber\<close> as declared in the source. A field that holds a
  function of the caller (\<open>watchdogReset\<close>, \<open>onClientSeen\<close>) or the bound \<open>keepAliveFunc\<close>
  (\<open>keepAlive\<close>) is modelled by whether a function is there, which is all the module tests.
\<close>

record IWatchdogData2 =
  key :: nat
  subscriber :: sid
  timeout :: number
  lastSeen :: real
  visitCount :: nat

record ISubscriber =
  watchDog :: "wid option"
  watchDogData :: "did option"
  watchdogReset :: bool
  keepAlive :: bool
  onClientSeen :: bool

text \<open>
  The private fields of class \<open>WatchDog\<close>. \<open>timer\<close> is \<open>null\<close> or the handle of the interval
  timer, modelled by its period in milliseconds.
\<close>

record WatchDog =
  watchdogDataMap :: "(nat \<times> did) list"
  counter :: nat
  currentTime :: real
  timer :: "nat option"

text \<open>
  The store. \<open>clock\<close> is the value that \<open>_getCurrentSystemTick()\<close> returns at this moment
  (the reading of \<open>process.hrtime()\<close> in milliseconds); \<open>nextData\<close> is the first address
  at which no \<open>IWatchdogData2\<close> object has been allocated yet.
\<close>

record heap =
  clock :: real
  dogs :: "wid \<Rightarrow> WatchDog"
  subs :: "sid \<Rightarrow> ISubscriber"
  datas :: "did \<Rightarrow> IWatchdogData2"
  nextData :: did

text \<open>
  Calls that leave the module: \<open>this.emit(name, batch)\<close> of the EventEmitter, and the hooks
  \<open>watchdogReset()\<close> and \<open>onClientSeen()\<close> of a subscriber. They are synchronous, so the
  callee sees the store as it stands when the call is made: the world keeps the list of
  these calls, oldest first, each with the store at that moment.
\<close>

datatype call = Emit wid string "did list" | WatchdogReset sid | OnClientSeen sid

record world = heap +
  calls :: "(call \<times> heap) list"

text \<open>
  An exception is a value: an operation returns how it completed and the world it left.
  \<open>CallerError\<close> stands for whatever the code of the caller throws.
\<close>

datatype error = AssertionError | InternalError | TypeError | CallerError

datatype 'a completion = Return 'a | Throw error

definition and_then ::
  "'a completion \<times> world \<Rightarrow> ('a \<Rightarrow> world \<Rightarrow> 'b completion \<times> world) \<Rightarrow> 'b completion \<times> world" where
  "and_then r f = (case r of (Return x, w) \<Rightarrow> f x w | (Throw e, w) \<Rightarrow> (Throw e, w))"

text \<open>\<open>assert\<close> of node-opcua-assert throws when its condition is false.\<close>

definition assert :: "bool \<Rightarrow> world \<Rightarrow> unit completion \<times> world" where
  "assert c w = (if c then (Return (), w) else (Throw AssertionError, w))"

definition upd_dog :: "wid \<Rightarrow> (WatchDog \<Rightarrow> WatchDog) \<Rightarrow> world \<Rightarrow> world" where
  "upd_dog this f w = w\<lparr>dogs := (dogs w)(this := f (dogs w this))\<rparr>"

definition upd_sub :: "sid \<Rightarrow> (ISubscriber \<Rightarrow> ISubscriber) \<Rightarrow> world \<Rightarrow> world" where
  "upd_sub s f w = w\<lparr>subs := (subs w)(s := f (subs w s))\<rparr>"

definition upd_data :: "did \<Rightarrow> (IWatchdogData2 \<Rightarrow> IWatchdogData2) \<Rightarrow> world \<Rightarrow> world" where
  "upd_data d f w = w\<lparr>datas := (datas w)(d := f (datas w d))\<rparr>"

text \<open>
  What the module cannot see. The callees are code of the caller: a hook or a listener may
  return or throw, and before it does it may change the store in any way, for instance by
  calling the module again. \<open>callee e c h\<close> is what the callee of the call \<open>c\<close> does when it
  is called in the store \<open>h\<close>: how it completes and the store it leaves. \<open>subtract e\<close> is
  the subtraction of two doubles, which rounds; the numbers of the model are the values
  of the doubles, and \<open>hasExpired\<close> is the only place where the module subtracts.
\<close>

record env =
  callee :: "call \<Rightarrow> heap \<Rightarrow> unit completion \<times> heap"
  subtract :: "real \<Rightarrow> real \<Rightarrow> real"

text \<open>
  A call out of the module: it is entered in the list with the store of that moment, then
  the callee runs, and the module goes on (or is left by the exception) in the store the
  callee leaves. The list holds the calls that the functions of the module make
  themselves; the callee cannot change it.
\<close>

definition logged :: "call \<Rightarrow> world \<Rightarrow> world" where
  "logged c w = w\<lparr>calls := calls w @ [(c, heap.truncate w)]\<rparr>"

definition with_store :: "heap \<Rightarrow> world \<Rightarrow> world" where
  "with_store h w =
     w\<lparr>clock := clock h, dogs := dogs h, subs := subs h, datas := datas h,
       nextData := nextData h\<rparr>"

definition outcall :: "env \<Rightarrow> call \<Rightarrow> world \<Rightarrow> unit completion \<times> world" where
  "outcall e c w =
     (case callee e c (heap.truncate w) of (r, h) \<Rightarrow> (r, with_store h (logged c w)))"

subsection \<open>The functions of the module\<close>

text \<open>
  \<open>getCurrentSystemTick\<close>, lines 170 to 172, returns what \<open>_getCurrentSystemTick\<close>, lines 16
  to 27, makes of \<open>process.hrtime()\<close> (or of \<open>Date.now()\<close>). That reading comes from outside
  the module, so the model takes it from the \<open>clock\<close> of the world.
\<close>

definition getCurrentSystemTick :: "world \<Rightarrow> real" where
  "getCurrentSystemTick w = clock w"

text \<open>\<open>hasExpired\<close>, lines 47 to 50.\<close>

definition hasExpired :: "env \<Rightarrow> IWatchdogData2 \<Rightarrow> real \<Rightarrow> bool" where
  "hasExpired e data now =
     (let elapsedTime = subtract e now (lastSeen data)
      in greater elapsedTime (timeout data))"

text \<open>
  \<open>keepAliveFunc\<close>, lines 52 to 63, with \<open>this\<close> bound to the subscriber at \<open>s\<close>. The first
  assertion fails when \<open>_watchDog\<close> is not set; \<open>_.isNumber\<close> of the key always holds.
\<close>

definition keepAliveFunc :: "env \<Rightarrow> sid \<Rightarrow> world \<Rightarrow> unit completion \<times> world" where
  "keepAliveFunc e s w =
     and_then (assert (watchDog (subs w s) \<noteq> None) w) (\<lambda>_ w.
       case (watchDogData (subs w s), watchDog (subs w s)) of
         (Some d, Some g) \<Rightarrow>
           (let w = upd_data d (\<lambda>x. x\<lparr>lastSeen := getCurrentSystemTick w\<rparr>) w
            in if onClientSeen (subs w s) then outcall e (OnClientSeen s) w
               else (Return (), w))
       | _ \<Rightarrow> (Throw InternalError, w))"

text \<open>
  The getter \<open>subscriberCount\<close>, lines 69 to 71. It reads the store only, so it can be
  asked of a world and of the store that a callee saw.
\<close>

definition subscriberCount :: "wid \<Rightarrow> 'a heap_scheme \<Rightarrow> nat" where
  "subscriberCount this w = length (obj_keys (watchdogDataMap (dogs w this)))"

text \<open>The constructor, lines 79 to 87, run on the object at address \<open>this\<close>.\<close>

definition constructor :: "wid \<Rightarrow> world \<Rightarrow> world" where
  "constructor this w =
     w\<lparr>dogs := (dogs w)(this :=
        \<lparr>watchdogDataMap = [], counter = 0, currentTime = getCurrentSystemTick w,
         timer = None\<rparr>)\<rparr>"

text \<open>\<open>_start_timer\<close> and \<open>_stop_timer\<close>, lines 193 to 204.\<close>

definition start_timer :: "wid \<Rightarrow> world \<Rightarrow> unit completion \<times> world" where
  "start_timer this w =
     and_then (assert (timer (dogs w this) = None) w) (\<lambda>_ w.
       (Return (), upd_dog this (\<lambda>g. g\<lparr>timer := Some 1000\<rparr>) w))"

definition stop_timer :: "wid \<Rightarrow> world \<Rightarrow> unit completion \<times> world" where
  "stop_timer this w =
     and_then (assert (timer (dogs w this) \<noteq> None) w) (\<lambda>_ w.
       if timer (dogs w this) \<noteq> None
       then (Return (), upd_dog this (\<lambda>g. g\<lparr>timer := None\<rparr>) w)
       else (Return (), w))"

text \<open>
  \<open>addSubscriber\<close>, lines 103 to 137. The new \<open>IWatchdogData2\<close> object is allocated at
  \<open>nextData\<close>; the subscriber and the table both get its address. When the hook of line
  125 throws, the entry is stored, and \<open>keepAlive\<close> is not bound and the timer not started.
\<close>

definition addSubscriber ::
  "env \<Rightarrow> wid \<Rightarrow> sid \<Rightarrow> number \<Rightarrow> world \<Rightarrow> nat completion \<times> world" where
  "addSubscriber e this s timeout0 w =
     (let w = upd_dog this (\<lambda>g. g\<lparr>currentTime := getCurrentSystemTick w\<rparr>) w;
          timeout1 = or_else timeout0 (Finite 1000)
      in
      and_then (assert (isNumber timeout1) w) (\<lambda>_ w.
      and_then (assert (watchdogReset (subs w s)) w) (\<lambda>_ w.
      and_then (assert (\<not> keepAlive (subs w s)) w) (\<lambda>_ w.
        let w = upd_dog this (\<lambda>g. g\<lparr>counter := counter g + 1\<rparr>) w;
            k = counter (dogs w this);
            d = nextData w;
            w = w\<lparr>nextData := d + 1\<rparr>;
            w = upd_sub s (\<lambda>u. u\<lparr>watchDog := Some this\<rparr>) w;
            w = upd_data d (\<lambda>_. \<lparr>key = k, subscriber = s, timeout = timeout1,
                                  lastSeen = currentTime (dogs w this), visitCount = 0\<rparr>) w;
            w = upd_sub s (\<lambda>u. u\<lparr>watchDogData := Some d\<rparr>) w;
            w = upd_dog this (\<lambda>g. g\<lparr>watchdogDataMap := obj_set k d (watchdogDataMap g)\<rparr>) w
        in
        and_then
          (if onClientSeen (subs w s) then outcall e (OnClientSeen s) w
           else (Return (), w)) (\<lambda>_ w.
        let w = upd_sub s (\<lambda>u. u\<lparr>keepAlive := True\<rparr>) w
        in
        and_then
          (if subscriberCount this w = 1
           then and_then (assert (timer (dogs w this) = None) w) (\<lambda>_ w. start_timer this w)
           else (Return (), w)) (\<lambda>_ w.
        and_then (assert (timer (dogs w this) \<noteq> None) w) (\<lambda>_ w.
          (Return k, w))))))))"

text \<open>
  \<open>removeSubscriber\<close>, lines 139 to 161. \<open>instanceof WatchDog\<close> holds of every address of
  a WatchDog and \<open>_.isNumber\<close> of every key, so these two assertions cannot fail.
\<close>

definition removeSubscriber :: "wid \<Rightarrow> sid \<Rightarrow> world \<Rightarrow> unit completion \<times> world" where
  "removeSubscriber this s w =
     (case watchDog (subs w s) of
        None \<Rightarrow> (Return (), w)
      | Some g \<Rightarrow>
         (case watchDogData (subs w s) of
            None \<Rightarrow> (Throw InternalError, w)
          | Some d \<Rightarrow>
             and_then (assert (keepAlive (subs w s)) w) (\<lambda>_ w.
             and_then (assert (hasOwnProperty (watchdogDataMap (dogs w this))
                                 (key (datas w d))) w) (\<lambda>_ w.
               let w = upd_dog this (\<lambda>g. g\<lparr>watchdogDataMap :=
                          obj_delete (key (datas w d)) (watchdogDataMap g)\<rparr>) w;
                   w = upd_sub s (\<lambda>u. u\<lparr>watchDog := None\<rparr>) w;
                   w = upd_sub s (\<lambda>u. u\<lparr>watchDogData := None\<rparr>) w;
                   w = upd_sub s (\<lambda>u. u\<lparr>keepAlive := False\<rparr>) w
               in if subscriberCount this w = 0 then stop_timer this w
                  else (Return (), w)))))"

text \<open>\<open>shutdown\<close>, lines 163 to 168.\<close>

definition shutdown :: "wid \<Rightarrow> world \<Rightarrow> unit completion \<times> world" where
  "shutdown this w =
     assert (timer (dogs w this) = None
             \<and> length (obj_keys (watchdogDataMap (dogs w this))) = 0) w"

text \<open>
  \<open>_visit_subscriber\<close>, lines 174 to 191, in its three parts. \<open>filter_visit\<close> is the
  \<open>_.filter\<close> of lines 178 to 181 over the values of the table: its callback increments
  \<open>visitCount\<close> of the object and keeps the object when it has expired.
\<close>

fun filter_visit :: "env \<Rightarrow> wid \<Rightarrow> did list \<Rightarrow> world \<Rightarrow> did list \<times> world" where
  "filter_visit e this [] w = ([], w)"
| "filter_visit e this (d # ds) w =
     (let w = upd_data d (\<lambda>x. x\<lparr>visitCount := visitCount x + 1\<rparr>) w;
          keep = hasExpired e (datas w d) (currentTime (dogs w this));
          (rest, w) = filter_visit e this ds w
      in (if keep then d # rest else rest, w))"

text \<open>
  \<open>this.emit("timeout", expiredSubscribers)\<close>: the listeners run; what they throw leaves
  \<open>_visit_subscriber\<close> before its \<open>forEach\<close>. The listeners are handed the array of the
  batch itself. The model takes it that they read it only: the \<open>forEach\<close> visits the batch
  as the \<open>_.filter\<close> made it.
\<close>

definition emit :: "env \<Rightarrow> wid \<Rightarrow> string \<Rightarrow> did list \<Rightarrow> world \<Rightarrow> unit completion \<times> world" where
  "emit e this name batch w = outcall e (Emit this name batch) w"

text \<open>
  A call of \<open>subscriber.watchdogReset()\<close>; calling what is not a function is a TypeError.
\<close>

definition call_watchdogReset :: "env \<Rightarrow> sid \<Rightarrow> world \<Rightarrow> unit completion \<times> world" where
  "call_watchdogReset e s w =
     (if watchdogReset (subs w s) then outcall e (WatchdogReset s) w
      else (Throw TypeError, w))"

text \<open>
  The \<open>forEach\<close> of lines 187 to 190; an exception ends it, so what a \<open>watchdogReset()\<close>
  throws leaves the rest of the batch where it is.
\<close>

fun forEach_expired :: "env \<Rightarrow> wid \<Rightarrow> did list \<Rightarrow> world \<Rightarrow> unit completion \<times> world" where
  "forEach_expired e this [] w = (Return (), w)"
| "forEach_expired e this (d # ds) w =
     (case removeSubscriber this (subscriber (datas w d)) w of
        (Throw x, w) \<Rightarrow> (Throw x, w)
      | (Return _, w) \<Rightarrow>
         (case call_watchdogReset e (subscriber (datas w d)) w of
            (Throw x, w) \<Rightarrow> (Throw x, w)
          | (Return _, w) \<Rightarrow> forEach_expired e this ds w))"

definition visit_subscriber :: "env \<Rightarrow> wid \<Rightarrow> world \<Rightarrow> unit completion \<times> world" where
  "visit_subscriber e this w =
     (let w = upd_dog this (\<lambda>g. g\<lparr>currentTime := getCurrentSystemTick w\<rparr>) w;
          (expiredSubscribers, w) =
             filter_visit e this (obj_values (watchdogDataMap (dogs w this))) w
      in
      and_then
        (if length expiredSubscribers \<noteq> 0
         then emit e this ''timeout'' expiredSubscribers w else (Return (), w)) (\<lambda>_ w.
      forEach_expired e this expiredSubscribers w))"

subsection \<open>Runs of the module\<close>

text \<open>
  What the caller and the environment can do: construct a WatchDog, call \<open>addSubscriber\<close>
  or \<open>removeSubscriber\<close>, call the \<open>keepAlive\<close> that was bound to a subscriber, let the
  interval timer of a WatchDog fire (which runs \<open>_visit_subscriber\<close>, and only happens while
  the timer is set), and let time pass. A caller that gets an exception goes on with the
  world the failed call left.
\<close>

datatype op =
  New wid | Add wid sid number | Remove wid sid | KeepAlive sid | Fire wid | Clock real

fun step :: "env \<Rightarrow> op \<Rightarrow> world \<Rightarrow> world" where
  "step e (New g) w = constructor g w"
| "step e (Add g s t) w = snd (addSubscriber e g s t w)"
| "step e (Remove g s) w = snd (removeSubscriber g s w)"
| "step e (KeepAlive s) w = snd (keepAliveFunc e s w)"
| "step e (Fire g) w = (if timer (dogs w g) = None then w else snd (visit_subscriber e g w))"
| "step e (Clock t) w = w\<lparr>clock := max (clock w) t\<rparr>"

fun run :: "env \<Rightarrow> op list \<Rightarrow> world \<Rightarrow> world" where
  "run e [] w = w"
| "run e (x # xs) w = run e xs (step e x w)"

text \<open>
  A world to start from: the clock at 0, no \<open>IWatchdogData2\<close> object allocated, every
  WatchDog as its constructor leaves it, and every subscriber a fresh object of the caller
  that has a \<open>watchdogReset\<close> and no \<open>onClientSeen\<close>.
\<close>

definition fresh_subscriber :: ISubscriber where
  "fresh_subscriber =
     \<lparr>watchDog = None, watchDogData = None, watchdogReset = True, keepAlive = False,
      onClientSeen = False\<rparr>"

definition start :: world where
  "start =
     \<lparr>clock = 0,
      dogs = (\<lambda>_. \<lparr>watchdogDataMap = [], counter = 0, currentTime = 0, timer = None\<rparr>),
      subs = (\<lambda>_. fresh_subscriber),
      datas = (\<lambda>_. \<lparr>key = 0, subscriber = 0, timeout = NaN, lastSeen = 0, visitCount = 0\<rparr>),
      nextData = 0,
      calls = []\<rparr>"

subsection \<open>Notions used to state the properties\<close>

text \<open>The subscribers whose \<open>watchdogReset()\<close> has been called so far, oldest first.\<close>

definition resets :: "world \<Rightarrow> sid list" where
  "resets w =
     concat (map (\<lambda>ch. case fst ch of WatchdogReset s \<Rightarrow> [s] | _ \<Rightarrow> []) (calls w))"

text \<open>The \<open>emit\<close> calls made so far, each with the store the listeners saw.\<close>

definition emits :: "world \<Rightarrow> (call \<times> heap) list" where
  "emits w = filter (\<lambda>ch. case fst ch of Emit g n b \<Rightarrow> True | _ \<Rightarrow> False) (calls w)"

text \<open>
  The value that the local variable \<open>expiredSubscribers\<close> of \<open>_visit_subscriber\<close> gets in a
  pass that starts in world \<open>w\<close>: the entries which that pass classifies as expired.
\<close>

definition expiredSubscribers :: "env \<Rightarrow> wid \<Rightarrow> world \<Rightarrow> did list" where
  "expiredSubscribers e this w =
     (let w = upd_dog this (\<lambda>g. g\<lparr>currentTime := getCurrentSystemTick w\<rparr>) w
      in fst (filter_visit e this (obj_values (watchdogDataMap (dogs w this))) w))"

text \<open>
  The world of that pass when its \<open>_.filter\<close> is done, which is the world in which line 184
  tests the length of the batch. No callee has run in the pass before it.
\<close>

definition visited :: "env \<Rightarrow> wid \<Rightarrow> world \<Rightarrow> world" where
  "visited e this w =
     (let w = upd_dog this (\<lambda>g. g\<lparr>currentTime := getCurrentSystemTick w\<rparr>) w
      in snd (filter_visit e this (obj_values (watchdogDataMap (dogs w this))) w))"

text \<open>
  The world of \<open>addSubscriber\<close> when line 122 is done, for a call that has passed the
  assertions: the entry is stored, and the hook of line 125 is the next to run.
\<close>

definition stored :: "wid \<Rightarrow> sid \<Rightarrow> number \<Rightarrow> world \<Rightarrow> world" where
  "stored this s t w =
     w\<lparr>dogs := (dogs w)(this := (dogs w this)
           \<lparr>currentTime := clock w, counter := counter (dogs w this) + 1,
            watchdogDataMap := obj_set (counter (dogs w this) + 1) (nextData w)
                                  (watchdogDataMap (dogs w this))\<rparr>),
       subs := (subs w)(s := (subs w s)
           \<lparr>watchDog := Some this, watchDogData := Some (nextData w)\<rparr>),
       datas := (datas w)(nextData w :=
           \<lparr>key = counter (dogs w this) + 1, subscriber = s,
            timeout = or_else t (Finite 1000), lastSeen = clock w, visitCount = 0\<rparr>),
       nextData := nextData w + 1\<rparr>"

text \<open>
  The rest of \<open>addSubscriber\<close>, lines 128 to 136, which runs when the hook has returned:
  it binds \<open>keepAlive\<close>, starts the timer for a first subscriber and returns the key \<open>k\<close>.
\<close>

definition bind_and_start :: "wid \<Rightarrow> sid \<Rightarrow> nat \<Rightarrow> world \<Rightarrow> nat completion \<times> world" where
  "bind_and_start this s k w =
     (let w = upd_sub s (\<lambda>u. u\<lparr>keepAlive := True\<rparr>) w
      in
      and_then
        (if subscriberCount this w = 1
         then and_then (assert (timer (dogs w this) = None) w) (\<lambda>_ w. start_timer this w)
         else (Return (), w)) (\<lambda>_ w.
      and_then (assert (timer (dogs w this) \<noteq> None) w) (\<lambda>_ w.
        (Return k, w))))"

text \<open>
  What a callee may be known to do. A \<open>quiet\<close> callee returns and leaves the store as it
  found it; a \<open>still\<close> one leaves the store as it found it and may throw.
\<close>

definition quiet :: "env \<Rightarrow> call \<Rightarrow> bool" where
  "quiet e c = (\<forall>h. callee e c h = (Return (), h))"

definition still :: "env \<Rightarrow> call \<Rightarrow> bool" where
  "still e c = (\<forall>h. snd (callee e c h) = h)"

text \<open>
  The callees of one pass: the listeners of its ``timeout'' notification and the
  \<open>watchdogReset()\<close> of the subscribers of its batch.
\<close>

definition quiet_pass :: "env \<Rightarrow> wid \<Rightarrow> world \<Rightarrow> bool" where
  "quiet_pass e this w =
     (quiet e (Emit this ''timeout'' (expiredSubscribers e this w))
      \<and> (\<forall>d \<in> set (expiredSubscribers e this w).
            quiet e (WatchdogReset (subscriber (datas w d)))))"

definition still_pass :: "env \<Rightarrow> wid \<Rightarrow> world \<Rightarrow> bool" where
  "still_pass e this w =
     (still e (Emit this ''timeout'' (expiredSubscribers e this w))
      \<and> (\<forall>d \<in> set (expiredSubscribers e this w).
            still e (WatchdogReset (subscriber (datas w d)))))"

text \<open>Whether the timer of a WatchDog is set exactly when its table has an entry.\<close>

definition timer_matches :: "wid \<Rightarrow> 'a heap_scheme \<Rightarrow> bool" where
  "timer_matches this w = ((timer (dogs w this) \<noteq> None) = (0 < subscriberCount this w))"

text \<open>
  Callees that are \<open>tame\<close> towards a WatchDog: an \<open>onClientSeen()\<close> returns and leaves the
  object of the WatchDog as it is, and the listeners and the \<open>watchdogReset()\<close> hooks,
  whether they return or throw, leave the timer set exactly when the table has an entry
  if they found it so. That is the case of a callee that does not touch the WatchDog, and
  of a \<open>watchdogReset()\<close> that registers its subscriber again.
\<close>

definition tame :: "env \<Rightarrow> wid \<Rightarrow> bool" where
  "tame e g =
     (\<forall>c h. case c of
          OnClientSeen s \<Rightarrow>
            fst (callee e c h) = Return () \<and> dogs (snd (callee e c h)) g = dogs h g
        | _ \<Rightarrow> timer_matches g h \<longrightarrow> timer_matches g (snd (callee e c h)))"

text \<open>
  No callee writes \<open>visitCount\<close> of the object at \<open>d\<close>: a callee that finds the object
  allocated leaves it allocated and with its \<open>visitCount\<close>. A callee that registers a
  subscriber is of that kind, since \<open>addSubscriber\<close> allocates a new object.
\<close>

definition keeps_visitCount :: "env \<Rightarrow> did \<Rightarrow> bool" where
  "keeps_visitCount e d =
     (\<forall>c h. d < nextData h \<longrightarrow>
        d < nextData (snd (callee e c h))
        \<and> visitCount (datas (snd (callee e c h)) d) = visitCount (datas h d))"

text \<open>
  The state of a registry in order, between two calls of the module. The table is a
  JavaScript object, so its keys are distinct and enumerated in ascending order. Every
  entry \<open>(k, d)\<close> of the table is the object that one \<open>addSubscriber\<close> of this WatchDog
  allocated and has not been removed since: it carries the key it is stored under, which
  the counter has passed, and its subscriber points back at this WatchDog and at the same
  object, still has the \<open>watchdogReset\<close> it registered with, and has the bound \<open>keepAlive\<close>.
  The timer is set exactly when the table has an entry.
\<close>

definition linked :: "wid \<Rightarrow> world \<Rightarrow> nat \<times> did \<Rightarrow> bool" where
  "linked this w kd =
     (let d = snd kd; u = subs w (subscriber (datas w d))
      in key (datas w d) = fst kd \<and> fst kd \<le> counter (dogs w this) \<and> d < nextData w
         \<and> watchDog u = Some this \<and> watchDogData u = Some d
         \<and> keepAlive u \<and> watchdogReset u)"

definition registry_ok :: "wid \<Rightarrow> world \<Rightarrow> bool" where
  "registry_ok this w =
     (sorted_wrt (<) (obj_keys (watchdogDataMap (dogs w this)))
      \<and> list_all (linked this w) (watchdogDataMap (dogs w this))
      \<and> (timer (dogs w this) \<noteq> None) = (watchdogDataMap (dogs w this) \<noteq> []))"

text \<open>
  A call that the discipline of the module allows: \<open>removeSubscriber\<close> is called on the
  WatchDog the subscriber was added to (or on a subscriber that is not registered).
\<close>

fun proper :: "op \<Rightarrow> world \<Rightarrow> bool" where
  "proper (Remove g s) w = (watchDog (subs w s) = None \<or> watchDog (subs w s) = Some g)"
| "proper x w = True"

fun proper_run :: "env \<Rightarrow> op list \<Rightarrow> world \<Rightarrow> bool" where
  "proper_run e [] w = True"
| "proper_run e (x # xs) w = (proper x w \<and> proper_run e xs (step e x w))"

subsection \<open>Worlds to evaluate the functions on\<close>

text \<open>
  Two surroundings in which the subtraction is exact: in \<open>silent\<close> every callee returns at
  once, in \<open>throwing\<close> every callee throws at once. Neither touches the store.
\<close>

definition silent :: env where
  "silent = \<lparr>callee = (\<lambda>c h. (Return (), h)), subtract = (\<lambda>x y. x - y)\<rparr>"

definition throwing :: env where
  "throwing = \<lparr>callee = (\<lambda>c h. (Throw CallerError, h)), subtract = (\<lambda>x y. x - y)\<rparr>"

text \<open>
  A surrounding whose subtraction rounds as that of JavaScript does. The doubles from 32
  up to 64 are the multiples of \<open>1 / 2 ^ 47\<close>, and the difference of two doubles is the
  double nearest to their real difference, the one with the even last bit when two are
  equally near. So \<open>subtract rounding\<close> is the subtraction of the program for two ticks
  whose real difference lies between 32 and 64, a timeout of 50 ms for instance. Its
  callees return at once.
\<close>

definition nearest_even :: "real \<Rightarrow> int" where
  "nearest_even x =
     (let n = \<lfloor>x\<rfloor>; r = x - of_int n
      in if r < 1 / 2 then n else if 1 / 2 < r then n + 1 else if even n then n else n + 1)"

definition rounding :: env where
  "rounding =
     \<lparr>callee = (\<lambda>c h. (Return (), h)),
      subtract = (\<lambda>x y. of_int (nearest_even ((x - y) * 2 ^ 47)) / 2 ^ 47)\<rparr>"

text \<open>
  A surrounding that calls back into the module: every \<open>watchdogReset()\<close> registers its
  subscriber again, with WatchDog 0 and a timeout of 50 ms, as a session that reconnects
  does, and ends as that \<open>addSubscriber\<close> ends. The call runs in the store in which the
  hook was called; the calls it makes out of the module in turn return at once. The other
  callees return at once.
\<close>

definition world_of :: "heap \<Rightarrow> world" where
  "world_of h =
     \<lparr>clock = clock h, dogs = dogs h, subs = subs h, datas = datas h, nextData = nextData h,
      calls = []\<rparr>"

definition reregistering :: env where
  "reregistering =
     \<lparr>callee = (\<lambda>c h. case c of
          WatchdogReset s \<Rightarrow>
            (case addSubscriber silent 0 s (Finite 50) (world_of h) of
               (Return k, w) \<Rightarrow> (Return (), heap.truncate w)
             | (Throw x, w) \<Rightarrow> (Throw x, heap.truncate w))
        | _ \<Rightarrow> (Return (), h)),
      subtract = (\<lambda>x y. x - y)\<rparr>"

text \<open>The world \<open>start\<close> with an \<open>onClientSeen\<close> hook on subscriber 1.\<close>

definition hooked :: world where
  "hooked = upd_sub 1 (\<lambda>u. u\<lparr>onClientSeen := True\<rparr>) start"

text \<open>One WatchDog with one subscriber, registered at tick 0 with a timeout of 50 ms.\<close>

definition one_registered :: world where
  "one_registered = run silent [New 0, Add 0 1 (Finite 50)] start"

text \<open>
  Two WatchDogs with one subscriber each: subscriber 1 is registered with WatchDog 0 and
  subscriber 2 with WatchDog 1.
\<close>

definition two_dogs :: world where
  "two_dogs = run silent [New 0, New 1, Add 0 1 (Finite 50), Add 1 2 (Finite 50)] start"

text \<open>
  One WatchDog with three subscribers registered at tick 0, and the clock at 2000 when the
  timer fires: subscribers 1 and 2 (timeout 50) have been silent for longer than their
  timeout, subscriber 3 (timeout 2000) for exactly its timeout.
\<close>

definition sweep_ready :: world where
  "sweep_ready =
     run silent
       [New 0, Add 0 1 (Finite 50), Add 0 2 (Finite 50), Add 0 3 (Finite 2000), Clock 2000]
       start"



section \<open>Basic facts about the functions\<close>

lemma truncate_sel [simp]:
  "clock (heap.truncate w) = clock w" "dogs (heap.truncate w) = dogs w"
  "subs (heap.truncate w) = subs w" "datas (heap.truncate w) = datas w"
  "nextData (heap.truncate w) = nextData w"
  by (simp_all add: heap.truncate_def)

lemma upd_dog_sel [simp]:
  "dogs (upd_dog g f w) = (dogs w)(g := f (dogs w g))"
  "subs (upd_dog g f w) = subs w" "datas (upd_dog g f w) = datas w"
  "clock (upd_dog g f w) = clock w" "nextData (upd_dog g f w) = nextData w"
  "calls (upd_dog g f w) = calls w"
  by (simp_all add: upd_dog_def)

lemma upd_sub_sel [simp]:
  "subs (upd_sub s f w) = (subs w)(s := f (subs w s))"
  "dogs (upd_sub s f w) = dogs w" "datas (upd_sub s f w) = datas w"
  "clock (upd_sub s f w) = clock w" "nextData (upd_sub s f w) = nextData w"
  "calls (upd_sub s f w) = calls w"
  by (simp_all add: upd_sub_def)

lemma upd_data_sel [simp]:
  "datas (upd_data d f w) = (datas w)(d := f (datas w d))"
  "dogs (upd_data d f w) = dogs w" "subs (upd_data d f w) = subs w"
  "clock (upd_data d f w) = clock w" "nextData (upd_data d f w) = nextData w"
  "calls (upd_data d f w) = calls w"
  by (simp_all add: upd_data_def)

lemma logged_sel [simp]:
  "calls (logged c w) = calls w @ [(c, heap.truncate w)]"
  "dogs (logged c w) = dogs w" "subs (logged c w) = subs w" "datas (logged c w) = datas w"
  "clock (logged c w) = clock w" "nextData (logged c w) = nextData w"
  by (simp_all add: logged_def)

lemma with_store_sel [simp]:
  "calls (with_store h w) = calls w"
  "dogs (with_store h w) = dogs h" "subs (with_store h w) = subs h"
  "datas (with_store h w) = datas h" "clock (with_store h w) = clock h"
  "nextData (with_store h w) = nextData h"
  by (simp_all add: with_store_def)

lemma with_store_same [simp]: "with_store (heap.truncate w) (logged c w) = logged c w"
  by (simp add: with_store_def logged_def heap.truncate_def)

lemma truncate_logged [simp]: "heap.truncate (logged c w) = heap.truncate w"
  by (simp add: logged_def heap.truncate_def)

lemma outcall_calls [simp]:
  "calls (snd (outcall e c w)) = calls w @ [(c, heap.truncate w)]"
  by (simp add: outcall_def case_prod_unfold)

lemma outcall_fst: "fst (outcall e c w) = fst (callee e c (heap.truncate w))"
  by (simp add: outcall_def case_prod_unfold)

lemma outcall_store:
  "dogs (snd (outcall e c w)) = dogs (snd (callee e c (heap.truncate w)))"
  "subs (snd (outcall e c w)) = subs (snd (callee e c (heap.truncate w)))"
  "datas (snd (outcall e c w)) = datas (snd (callee e c (heap.truncate w)))"
  "clock (snd (outcall e c w)) = clock (snd (callee e c (heap.truncate w)))"
  "nextData (snd (outcall e c w)) = nextData (snd (callee e c (heap.truncate w)))"
  by (simp_all add: outcall_def case_prod_unfold)

lemma outcall_quiet: "quiet e c \<Longrightarrow> outcall e c w = (Return (), logged c w)"
  by (simp add: outcall_def quiet_def)

lemma outcall_still: "still e c \<Longrightarrow> snd (outcall e c w) = logged c w"
proof -
  assume "still e c"
  then have "snd (callee e c (heap.truncate w)) = heap.truncate w"
    by (simp add: still_def)
  then show ?thesis
    by (cases "callee e c (heap.truncate w)") (simp add: outcall_def)
qed

lemma quiet_still: "quiet e c \<Longrightarrow> still e c"
  by (simp add: quiet_def still_def)

lemma silent_quiet [simp]: "quiet silent c"
  by (simp add: quiet_def silent_def)

lemma and_then_Return [simp]: "and_then (Return x, w) f = f x w"
  by (simp add: and_then_def)

lemma and_then_Throw [simp]: "and_then (Throw e, w) f = (Throw e, w)"
  by (simp add: and_then_def)

lemma and_then_assert:
  "and_then (assert c w) f = (if c then f () w else (Throw AssertionError, w))"
  by (simp add: assert_def)

lemma and_then_if:
  "and_then (if c then a else b) f = (if c then and_then a f else and_then b f)"
  by simp


lemmas op_defs = addSubscriber_def removeSubscriber_def keepAliveFunc_def visit_subscriber_def
  constructor_def start_timer_def stop_timer_def shutdown_def subscriberCount_def emit_def
  call_watchdogReset_def and_then_assert and_then_if getCurrentSystemTick_def hasExpired_def
  obj_delete_def obj_keys_def obj_values_def hasOwnProperty_def or_else_def Let_def

lemmas run_defs = op_defs upd_dog_def upd_sub_def upd_data_def outcall_def logged_def
  with_store_def silent_def heap.truncate_def start_def fresh_subscriber_def

subsection \<open>removeSubscriber\<close>

lemma removeSubscriber_unset:
  "watchDog (subs w s) = None \<Longrightarrow> removeSubscriber this s w = (Return (), w)"
  by (simp add: removeSubscriber_def)

lemma removeSubscriber_nodata:
  "watchDog (subs w s) = Some g \<Longrightarrow> watchDogData (subs w s) = None
   \<Longrightarrow> removeSubscriber this s w = (Throw InternalError, w)"
  by (simp add: removeSubscriber_def)

lemma removeSubscriber_refused:
  "watchDog (subs w s) = Some g \<Longrightarrow> watchDogData (subs w s) = Some d
   \<Longrightarrow> \<not> keepAlive (subs w s) \<or> key (datas w d) \<notin> fst ` set (watchdogDataMap (dogs w this))
   \<Longrightarrow> removeSubscriber this s w = (Throw AssertionError, w)"
  by (auto simp add: removeSubscriber_def and_then_assert hasOwnProperty_def obj_keys_def)

lemma removeSubscriber_proceeds:
  assumes "watchDog (subs w s) = Some g" and "watchDogData (subs w s) = Some d"
    and "keepAlive (subs w s)"
    and "key (datas w d) \<in> fst ` set (watchdogDataMap (dogs w this))"
  shows "fst (removeSubscriber this s w) =
           (if obj_delete (key (datas w d)) (watchdogDataMap (dogs w this)) = []
               \<and> timer (dogs w this) = None
            then Throw AssertionError else Return ())"
    and "subs (snd (removeSubscriber this s w)) =
           (subs w)(s := (subs w s)\<lparr>watchDog := None, watchDogData := None, keepAlive := False\<rparr>)"
    and "watchdogDataMap (dogs (snd (removeSubscriber this s w)) this) =
           obj_delete (key (datas w d)) (watchdogDataMap (dogs w this))"
    and "timer (dogs (snd (removeSubscriber this s w)) this) =
           (if obj_delete (key (datas w d)) (watchdogDataMap (dogs w this)) = [] then None
            else timer (dogs w this))"
  using assms
  by (simp_all add: removeSubscriber_def and_then_assert hasOwnProperty_def obj_keys_def
      subscriberCount_def stop_timer_def Let_def)

lemma removeSubscriber_calls: "calls (snd (removeSubscriber this s w)) = calls w"
  by (simp add: op_defs split: option.splits)

lemma removeSubscriber_datas: "datas (snd (removeSubscriber this s w)) = datas w"
  by (simp add: op_defs split: option.splits)

lemma removeSubscriber_clock: "clock (snd (removeSubscriber this s w)) = clock w"
  by (simp add: op_defs split: option.splits)

lemma removeSubscriber_nextData: "nextData (snd (removeSubscriber this s w)) = nextData w"
  by (simp add: op_defs split: option.splits)

lemma removeSubscriber_subs:
  "(subs (snd (removeSubscriber this s w)))(s := subs w s) = subs w"
  by (simp add: op_defs split: option.splits)

lemma removeSubscriber_subs_other:
  "s' \<noteq> s \<Longrightarrow> subs (snd (removeSubscriber this s w)) s' = subs w s'"
  by (metis removeSubscriber_subs fun_upd_other)

lemma removeSubscriber_dogs:
  "(dogs (snd (removeSubscriber this s w)))(this := dogs w this) = dogs w"
  by (simp add: op_defs split: option.splits)

lemma removeSubscriber_dogs_other:
  "g \<noteq> this \<Longrightarrow> dogs (snd (removeSubscriber this s w)) g = dogs w g"
  by (metis removeSubscriber_dogs fun_upd_other)

lemma removeSubscriber_dog_fields:
  "counter (dogs (snd (removeSubscriber this s w)) this) = counter (dogs w this)"
  "currentTime (dogs (snd (removeSubscriber this s w)) this) = currentTime (dogs w this)"
  by (simp_all add: op_defs split: option.splits)

lemma removeSubscriber_sub_fields:
  "watchdogReset (subs (snd (removeSubscriber this s w)) s) = watchdogReset (subs w s)"
  "onClientSeen (subs (snd (removeSubscriber this s w)) s) = onClientSeen (subs w s)"
  by (simp_all add: op_defs split: option.splits)

lemma removeSubscriber_Return_unset:
  assumes "fst (removeSubscriber this s w) = Return ()"
  shows "watchDog (subs (snd (removeSubscriber this s w)) s) = None"
proof (cases "watchDog (subs w s)")
  case None
  then show ?thesis by (simp add: removeSubscriber_unset)
next
  case (Some g)
  show ?thesis
  proof (cases "watchDogData (subs w s)")
    case None
    with Some assms show ?thesis by (simp add: removeSubscriber_nodata)
  next
    case (Some d)
    show ?thesis
    proof (cases "keepAlive (subs w s)
        \<and> key (datas w d) \<in> fst ` set (watchdogDataMap (dogs w this))")
      case True
      with \<open>watchDog (subs w s) = Some g\<close> Some show ?thesis
        by (simp add: removeSubscriber_proceeds(2))
    next
      case False
      with \<open>watchDog (subs w s) = Some g\<close> Some assms show ?thesis
        using removeSubscriber_refused [of w s g d this] by auto
    qed
  qed
qed


subsection \<open>keepAliveFunc\<close>

lemma keepAliveFunc_unset:
  "watchDog (subs w s) = None \<Longrightarrow> keepAliveFunc e s w = (Throw AssertionError, w)"
  by (simp add: keepAliveFunc_def and_then_assert)

lemma keepAliveFunc_nodata:
  "watchDog (subs w s) = Some g \<Longrightarrow> watchDogData (subs w s) = None
   \<Longrightarrow> keepAliveFunc e s w = (Throw InternalError, w)"
  by (simp add: keepAliveFunc_def and_then_assert)

lemma keepAliveFunc_calls:
  "map fst (calls (snd (keepAliveFunc e s w))) =
     map fst (calls w) @
       (if watchDog (subs w s) \<noteq> None \<and> watchDogData (subs w s) \<noteq> None
           \<and> onClientSeen (subs w s)
        then [OnClientSeen s] else [])"
  by (simp add: keepAliveFunc_def and_then_assert Let_def split: option.splits)

lemma keepAliveFunc_proceeds:
  assumes "watchDog (subs w s) = Some g" and "watchDogData (subs w s) = Some d"
    and "onClientSeen (subs w s) \<longrightarrow> quiet e (OnClientSeen s)"
  shows "fst (keepAliveFunc e s w) = Return ()"
    and "datas (snd (keepAliveFunc e s w)) = (datas w)(d := (datas w d)\<lparr>lastSeen := clock w\<rparr>)"
  using assms
  by (simp_all add: keepAliveFunc_def and_then_assert getCurrentSystemTick_def Let_def
      outcall_quiet)

lemma keepAliveFunc_dogs:
  assumes "\<And>h. dogs (snd (callee e (OnClientSeen s) h)) g = dogs h g"
  shows "dogs (snd (keepAliveFunc e s w)) g = dogs w g"
  using assms
  by (simp add: keepAliveFunc_def and_then_assert Let_def outcall_store split: option.splits)

lemma keepAliveFunc_frame:
  assumes "onClientSeen (subs w s) \<longrightarrow> still e (OnClientSeen s)"
  shows "dogs (snd (keepAliveFunc e s w)) = dogs w"
    and "subs (snd (keepAliveFunc e s w)) = subs w"
    and "clock (snd (keepAliveFunc e s w)) = clock w"
    and "nextData (snd (keepAliveFunc e s w)) = nextData w"
    and "key (datas (snd (keepAliveFunc e s w)) d) = key (datas w d)"
    and "subscriber (datas (snd (keepAliveFunc e s w)) d) = subscriber (datas w d)"
    and "timeout (datas (snd (keepAliveFunc e s w)) d) = timeout (datas w d)"
    and "visitCount (datas (snd (keepAliveFunc e s w)) d) = visitCount (datas w d)"
  using assms
  by (simp_all add: keepAliveFunc_def and_then_assert Let_def outcall_still
      split: option.splits)

subsection \<open>addSubscriber\<close>

lemma addSubscriber_refused:
  "\<not> watchdogReset (subs w s) \<or> keepAlive (subs w s) \<Longrightarrow>
   addSubscriber e this s t w =
     (Throw AssertionError, upd_dog this (\<lambda>g. g\<lparr>currentTime := clock w\<rparr>) w)"
  by (auto simp add: addSubscriber_def and_then_assert getCurrentSystemTick_def Let_def)

lemma stored_sel [simp]:
  "dogs (stored this s t w) = (dogs w)(this := (dogs w this)
       \<lparr>currentTime := clock w, counter := counter (dogs w this) + 1,
        watchdogDataMap := obj_set (counter (dogs w this) + 1) (nextData w)
                              (watchdogDataMap (dogs w this))\<rparr>)"
  "subs (stored this s t w) = (subs w)(s := (subs w s)
       \<lparr>watchDog := Some this, watchDogData := Some (nextData w)\<rparr>)"
  "datas (stored this s t w) = (datas w)(nextData w :=
       \<lparr>key = counter (dogs w this) + 1, subscriber = s,
        timeout = or_else t (Finite 1000), lastSeen = clock w, visitCount = 0\<rparr>)"
  "nextData (stored this s t w) = nextData w + 1"
  "clock (stored this s t w) = clock w"
  "calls (stored this s t w) = calls w"
  by (simp_all add: stored_def)

lemma addSubscriber_unfold:
  assumes "watchdogReset (subs w s)" and "\<not> keepAlive (subs w s)"
  shows "addSubscriber e this s t w =
           and_then
             (if onClientSeen (subs w s) then outcall e (OnClientSeen s) (stored this s t w)
              else (Return (), stored this s t w))
             (\<lambda>_. bind_and_start this s (counter (dogs w this) + 1))"
proof -
  have eq: "upd_dog this (\<lambda>g. g\<lparr>watchdogDataMap :=
            obj_set (Suc (counter (dogs w this))) (nextData w) (watchdogDataMap g)\<rparr>)
          (upd_sub s (\<lambda>u. u\<lparr>watchDogData := Some (nextData w)\<rparr>)
            (upd_data (nextData w) (\<lambda>_. \<lparr>key = Suc (counter (dogs w this)), subscriber = s,
                 timeout = or_else t (Finite 1000), lastSeen = clock w, visitCount = 0\<rparr>)
              (upd_sub s (\<lambda>u. u\<lparr>watchDog := Some this\<rparr>)
                (upd_dog this (\<lambda>g. g\<lparr>counter := Suc (counter g)\<rparr>)
                  (upd_dog this (\<lambda>g. g\<lparr>currentTime := clock w\<rparr>) w)
                 \<lparr>nextData := Suc (nextData w)\<rparr>))))
      = stored this s t w"
    by (rule world.equality) (simp_all add: stored_def upd_dog_def upd_sub_def upd_data_def)
  have k: "counter (dogs (upd_dog this (\<lambda>g. g\<lparr>counter := Suc (counter g)\<rparr>)
             (upd_dog this (\<lambda>g. g\<lparr>currentTime := clock w\<rparr>) w)) this)
           = Suc (counter (dogs w this))"
    by (simp add: upd_dog_def)
  have b: "bind_and_start this s k =
      (\<lambda>w. and_then
        (if subscriberCount this (upd_sub s (\<lambda>u. u\<lparr>keepAlive := True\<rparr>) w) = 1
         then and_then (assert (timer (dogs (upd_sub s (\<lambda>u. u\<lparr>keepAlive := True\<rparr>) w) this) = None)
                          (upd_sub s (\<lambda>u. u\<lparr>keepAlive := True\<rparr>) w))
                (\<lambda>_ w. start_timer this w)
         else (Return (), upd_sub s (\<lambda>u. u\<lparr>keepAlive := True\<rparr>) w)) (\<lambda>_ w.
      and_then (assert (timer (dogs w this) \<noteq> None) w) (\<lambda>_ w.
        (Return k, w))))" for k
    by (rule ext) (simp add: bind_and_start_def Let_def)
  from assms show ?thesis
    by (simp add: addSubscriber_def b and_then_assert
        getCurrentSystemTick_def Let_def eq k cong: if_cong)
qed

lemma bind_and_start_facts:
  "fst (bind_and_start this s k w) =
     (if (length (watchdogDataMap (dogs w this)) = 1) = (timer (dogs w this) = None)
      then Return k else Throw AssertionError)"
  "dogs (snd (bind_and_start this s k w)) =
     (dogs w)(this := (dogs w this)
        \<lparr>timer := if length (watchdogDataMap (dogs w this)) = 1 \<and> timer (dogs w this) = None
                  then Some 1000 else timer (dogs w this)\<rparr>)"
  "subs (snd (bind_and_start this s k w)) = (subs w)(s := (subs w s)\<lparr>keepAlive := True\<rparr>)"
  "datas (snd (bind_and_start this s k w)) = datas w"
  "clock (snd (bind_and_start this s k w)) = clock w"
  "nextData (snd (bind_and_start this s k w)) = nextData w"
  "calls (snd (bind_and_start this s k w)) = calls w"
  by (simp_all add: bind_and_start_def and_then_assert and_then_if start_timer_def
      subscriberCount_def obj_keys_def Let_def fun_eq_iff)


lemma addSubscriber_proceeds:
  assumes "watchdogReset (subs w s)" and "\<not> keepAlive (subs w s)"
    and "onClientSeen (subs w s) \<longrightarrow> still e (OnClientSeen s)
           \<and> fst (callee e (OnClientSeen s) (heap.truncate (stored this s t w))) = Return ()"
  shows "fst (addSubscriber e this s t w) =
           (if (length (obj_set (counter (dogs w this) + 1) (nextData w)
                   (watchdogDataMap (dogs w this))) = 1) = (timer (dogs w this) = None)
            then Return (counter (dogs w this) + 1) else Throw AssertionError)"
    and "watchdogDataMap (dogs (snd (addSubscriber e this s t w)) this) =
           obj_set (counter (dogs w this) + 1) (nextData w) (watchdogDataMap (dogs w this))"
    and "counter (dogs (snd (addSubscriber e this s t w)) this) = counter (dogs w this) + 1"
    and "timer (dogs (snd (addSubscriber e this s t w)) this) =
           (if length (obj_set (counter (dogs w this) + 1) (nextData w)
                   (watchdogDataMap (dogs w this))) = 1 \<and> timer (dogs w this) = None
            then Some 1000 else timer (dogs w this))"
    and "subs (snd (addSubscriber e this s t w)) =
           (subs w)(s := (subs w s)\<lparr>watchDog := Some this, watchDogData := Some (nextData w),
                                     keepAlive := True\<rparr>)"
    and "datas (snd (addSubscriber e this s t w)) =
           (datas w)(nextData w :=
              \<lparr>key = counter (dogs w this) + 1, subscriber = s,
               timeout = or_else t (Finite 1000), lastSeen = clock w, visitCount = 0\<rparr>)"
    and "nextData (snd (addSubscriber e this s t w)) = nextData w + 1"
    and "clock (snd (addSubscriber e this s t w)) = clock w"
    and "g \<noteq> this \<longrightarrow> dogs (snd (addSubscriber e this s t w)) g = dogs w g"
proof -
  define c where "c = OnClientSeen s"
  define w1 where "w1 = (if onClientSeen (subs w s) then logged c (stored this s t w)
                         else stored this s t w)"
  have hook: "(if onClientSeen (subs w s) then outcall e c (stored this s t w)
               else (Return (), stored this s t w)) = (Return (), w1)"
  proof (cases "onClientSeen (subs w s)")
    case True
    with assms(3) have "still e c"
      and "fst (callee e c (heap.truncate (stored this s t w))) = Return ()"
      by (simp_all add: c_def)
    then have "snd (outcall e c (stored this s t w)) = logged c (stored this s t w)"
      and "fst (outcall e c (stored this s t w)) = Return ()"
      by (simp_all add: outcall_still outcall_fst)
    with True show ?thesis by (simp add: w1_def prod_eq_iff)
  next
    case False
    then show ?thesis by (simp add: w1_def)
  qed
  have u: "addSubscriber e this s t w = bind_and_start this s (counter (dogs w this) + 1) w1"
    by (simp only: addSubscriber_unfold [OF assms(1,2)] hook [unfolded c_def] and_then_Return)
  have s1: "dogs w1 = dogs (stored this s t w)" "subs w1 = subs (stored this s t w)"
    "datas w1 = datas (stored this s t w)" "nextData w1 = nextData (stored this s t w)"
    "clock w1 = clock (stored this s t w)"
    by (simp_all add: w1_def)
  show "fst (addSubscriber e this s t w) =
           (if (length (obj_set (counter (dogs w this) + 1) (nextData w)
                   (watchdogDataMap (dogs w this))) = 1) = (timer (dogs w this) = None)
            then Return (counter (dogs w this) + 1) else Throw AssertionError)"
    by (auto simp add: u bind_and_start_facts s1)
  show "watchdogDataMap (dogs (snd (addSubscriber e this s t w)) this) =
           obj_set (counter (dogs w this) + 1) (nextData w) (watchdogDataMap (dogs w this))"
    by (simp add: u bind_and_start_facts s1)
  show "counter (dogs (snd (addSubscriber e this s t w)) this) = counter (dogs w this) + 1"
    by (simp add: u bind_and_start_facts s1)
  show "timer (dogs (snd (addSubscriber e this s t w)) this) =
           (if length (obj_set (counter (dogs w this) + 1) (nextData w)
                   (watchdogDataMap (dogs w this))) = 1 \<and> timer (dogs w this) = None
            then Some 1000 else timer (dogs w this))"
    by (simp add: u bind_and_start_facts s1)
  show "subs (snd (addSubscriber e this s t w)) =
           (subs w)(s := (subs w s)\<lparr>watchDog := Some this, watchDogData := Some (nextData w),
                                     keepAlive := True\<rparr>)"
    by (simp add: u bind_and_start_facts s1)
  show "datas (snd (addSubscriber e this s t w)) =
           (datas w)(nextData w :=
              \<lparr>key = counter (dogs w this) + 1, subscriber = s,
               timeout = or_else t (Finite 1000), lastSeen = clock w, visitCount = 0\<rparr>)"
    by (simp add: u bind_and_start_facts s1)
  show "nextData (snd (addSubscriber e this s t w)) = nextData w + 1"
    by (simp add: u bind_and_start_facts s1)
  show "clock (snd (addSubscriber e this s t w)) = clock w"
    by (simp add: u bind_and_start_facts s1)
  show "g \<noteq> this \<longrightarrow> dogs (snd (addSubscriber e this s t w)) g = dogs w g"
    by (simp add: u bind_and_start_facts s1)
qed

lemma addSubscriber_hook_throws:
  assumes "watchdogReset (subs w s)" and "\<not> keepAlive (subs w s)"
    and "onClientSeen (subs w s)"
    and "callee e (OnClientSeen s) (heap.truncate (stored this s t w)) = (Throw x, h)"
  shows "addSubscriber e this s t w =
           (Throw x, with_store h (logged (OnClientSeen s) (stored this s t w)))"
  using assms(3,4) by (simp add: addSubscriber_unfold [OF assms(1,2)] outcall_def)

lemma addSubscriber_calls:
  "map fst (calls (snd (addSubscriber e this s t w))) =
     map fst (calls w) @
       (if watchdogReset (subs w s) \<and> \<not> keepAlive (subs w s) \<and> onClientSeen (subs w s)
        then [OnClientSeen s] else [])"
proof (cases "watchdogReset (subs w s) \<and> \<not> keepAlive (subs w s)")
  case False
  then show ?thesis by (auto simp add: addSubscriber_refused)
next
  case True
  then have a: "watchdogReset (subs w s)" "\<not> keepAlive (subs w s)" by simp_all
  show ?thesis
  proof (cases "onClientSeen (subs w s)")
    case False
    with a show ?thesis
      by (simp add: addSubscriber_unfold [OF a] bind_and_start_facts)
  next
    case True
    obtain r w1 where o: "outcall e (OnClientSeen s) (stored this s t w) = (r, w1)"
      by (cases "outcall e (OnClientSeen s) (stored this s t w)")
    have "calls w1 = calls w @ [(OnClientSeen s, heap.truncate (stored this s t w))]"
      using outcall_calls [of e "OnClientSeen s" "stored this s t w"] by (simp add: o)
    with a True show ?thesis
      by (cases r) (simp_all add: addSubscriber_unfold [OF a] o bind_and_start_facts)
  qed
qed

lemma addSubscriber_Return:
  assumes "addSubscriber e this s t w = (Return k, w')"
  shows "watchdogReset (subs w s)" and "\<not> keepAlive (subs w s)"
  using assms addSubscriber_refused [of w s e this t] by auto

lemma addSubscriber_Return_bound:
  assumes "addSubscriber e this s t w = (Return k, w')"
  shows "keepAlive (subs w' s)" and "k = counter (dogs w this) + 1"
proof -
  note a = addSubscriber_Return [OF assms]
  define X where "X = (if onClientSeen (subs w s) then outcall e (OnClientSeen s) (stored this s t w)
              else (Return (), stored this s t w))"
  define k0 where "k0 = counter (dogs w this) + 1"
  have u: "addSubscriber e this s t w = and_then X (\<lambda>_. bind_and_start this s k0)"
    unfolding X_def k0_def by (rule addSubscriber_unfold [OF a])
  obtain r w1 where x: "X = (r, w1)" by (cases X)
  from assms u x have r: "r = Return ()" by (cases r) simp_all
  from assms u x r have b: "bind_and_start this s k0 w1 = (Return k, w')"
    by simp
  have "subs w' = (subs w1)(s := (subs w1 s)\<lparr>keepAlive := True\<rparr>)"
    using bind_and_start_facts(3) [of this s k0 w1] by (simp add: b)
  then show "keepAlive (subs w' s)" by simp
  have "fst (bind_and_start this s k0 w1) = Return k"
    by (simp add: b)
  then show "k = counter (dogs w this) + 1"
    unfolding k0_def [symmetric] by (simp add: bind_and_start_facts(1) split: if_splits)
qed

lemma map_of_obj_set: "map_of (obj_set k v m) k = Some v"
  by (induction m) auto

lemma or_else_default:
  "or_else t (Finite 1000) = (if t = Finite 0 \<or> t = NaN then Finite 1000 else t)"
  by (cases t) (simp_all add: or_else_def)

subsection \<open>Calls of watchdogReset\<close>

lemma resets_eq: "calls a = calls b \<Longrightarrow> resets a = resets b"
  by (simp add: resets_def)

lemma resets_map:
  "map fst (calls a) = map fst (calls b) @ cs
   \<Longrightarrow> list_all (\<lambda>c. case c of WatchdogReset s \<Rightarrow> False | _ \<Rightarrow> True) cs
   \<Longrightarrow> resets a = resets b"
proof -
  assume a: "map fst (calls a) = map fst (calls b) @ cs"
    and b: "list_all (\<lambda>c. case c of WatchdogReset s \<Rightarrow> False | _ \<Rightarrow> True) cs"
  have r: "\<And>w. resets w =
      concat (map (\<lambda>c. case c of WatchdogReset s \<Rightarrow> [s] | _ \<Rightarrow> []) (map fst (calls w)))"
    by (simp add: resets_def comp_def)
  have "concat (map (\<lambda>c. case c of WatchdogReset s \<Rightarrow> [s] | _ \<Rightarrow> []) cs) = []"
    using b by (induction cs) (auto split: call.splits)
  then show ?thesis by (simp add: r a)
qed

lemma addSubscriber_resets: "resets (snd (addSubscriber e this s t w)) = resets w"
  by (rule resets_map [OF addSubscriber_calls]) simp

lemma keepAliveFunc_resets: "resets (snd (keepAliveFunc e s w)) = resets w"
  by (rule resets_map [OF keepAliveFunc_calls]) simp

lemma constructor_resets: "resets (constructor this w) = resets w"
  by (rule resets_eq) (simp add: constructor_def)

lemma shutdown_resets: "resets (snd (shutdown this w)) = resets w"
  by (simp add: shutdown_def assert_def)

lemma removeSubscriber_Return:
  "removeSubscriber this s w = (Return (), w1) \<Longrightarrow> watchDog (subs w1 s) = None"
  using removeSubscriber_Return_unset [of this s w] by simp

subsection \<open>The filter of a pass\<close>

lemma hasExpired_visitCount [simp]:
  "hasExpired e (x\<lparr>visitCount := n\<rparr>) t = hasExpired e x t"
  by (simp add: hasExpired_def)

lemma filter_visit_frame:
  "dogs (snd (filter_visit e this ds w)) = dogs w"
  "subs (snd (filter_visit e this ds w)) = subs w"
  "clock (snd (filter_visit e this ds w)) = clock w"
  "nextData (snd (filter_visit e this ds w)) = nextData w"
  "calls (snd (filter_visit e this ds w)) = calls w"
  by (induction ds arbitrary: w; simp add: Let_def case_prod_unfold)+

lemma filter_visit_datas:
  "key (datas (snd (filter_visit e this ds w)) d) = key (datas w d)"
  "subscriber (datas (snd (filter_visit e this ds w)) d) = subscriber (datas w d)"
  "timeout (datas (snd (filter_visit e this ds w)) d) = timeout (datas w d)"
  "lastSeen (datas (snd (filter_visit e this ds w)) d) = lastSeen (datas w d)"
  by (induction ds arbitrary: w; simp add: Let_def case_prod_unfold)+

lemma filter_visit_visitCount:
  "visitCount (datas (snd (filter_visit e this ds w)) d) = visitCount (datas w d) + count_list ds d"
  by (induction ds arbitrary: w) (simp_all add: Let_def case_prod_unfold)

lemma filter_visit_fst:
  "fst (filter_visit e this ds w) =
     filter (\<lambda>d. hasExpired e (datas w d) (currentTime (dogs w this))) ds"
proof (induction ds arbitrary: w)
  case Nil
  show ?case by simp
next
  case (Cons d ds)
  have "filter (\<lambda>d'. hasExpired e (datas (upd_data d (\<lambda>x. x\<lparr>visitCount := visitCount x + 1\<rparr>) w) d')
                 (currentTime (dogs w this))) ds
      = filter (\<lambda>d'. hasExpired e (datas w d') (currentTime (dogs w this))) ds"
    by (rule filter_cong) simp_all
  then show ?case
    by (simp add: Let_def case_prod_unfold Cons.IH)
qed


subsection \<open>Registries in order\<close>

lemma registry_okD:
  assumes "registry_ok this w" and "(k, d) \<in> set (watchdogDataMap (dogs w this))"
  shows "key (datas w d) = k" and "k \<le> counter (dogs w this)" and "d < nextData w"
    and "watchDog (subs w (subscriber (datas w d))) = Some this"
    and "watchDogData (subs w (subscriber (datas w d))) = Some d"
    and "keepAlive (subs w (subscriber (datas w d)))"
    and "watchdogReset (subs w (subscriber (datas w d)))"
  using assms by (auto simp add: registry_ok_def list_all_iff linked_def Let_def)

lemma registry_ok_timer:
  "registry_ok this w \<Longrightarrow> (timer (dogs w this) = None) = (watchdogDataMap (dogs w this) = [])"
  by (auto simp add: registry_ok_def)

lemma registry_ok_distinct_keys:
  "registry_ok this w \<Longrightarrow> distinct (map fst (watchdogDataMap (dogs w this)))"
  by (simp add: registry_ok_def obj_keys_def strict_sorted_iff)

lemma registry_ok_same_entry:
  assumes ok: "registry_ok this w"
    and a: "(k, d) \<in> set (watchdogDataMap (dogs w this))"
    and b: "(k', d') \<in> set (watchdogDataMap (dogs w this))"
  shows "(k' = k) = (d' = d)"
proof
  assume "k' = k"
  with a b registry_ok_distinct_keys [OF ok] show "d' = d"
    by (metis eq_key_imp_eq_value)
next
  assume "d' = d"
  with registry_okD(1) [OF ok a] registry_okD(1) [OF ok b] show "k' = k" by simp
qed

lemma registry_ok_distinct_values:
  assumes ok: "registry_ok this w"
  shows "distinct (map snd (watchdogDataMap (dogs w this)))"
proof -
  have "inj_on snd (set (watchdogDataMap (dogs w this)))"
    by (rule inj_onI) (metis registry_ok_same_entry [OF ok] prod.collapse)
  moreover have "distinct (watchdogDataMap (dogs w this))"
    using registry_ok_distinct_keys [OF ok] by (simp add: distinct_map)
  ultimately show ?thesis by (simp add: distinct_map)
qed

lemma registry_ok_delete:
  assumes ok: "registry_ok this w" and a: "(k, d) \<in> set (watchdogDataMap (dogs w this))"
  shows "obj_delete k (watchdogDataMap (dogs w this))
           = filter (\<lambda>kd. snd kd \<noteq> d) (watchdogDataMap (dogs w this))"
  unfolding obj_delete_def
  by (rule filter_cong) (use registry_ok_same_entry [OF ok a] in \<open>auto simp add: prod_eq_iff\<close>)

lemma registry_ok_shrink:
  assumes ok: "registry_ok this w"
    and table: "watchdogDataMap (dogs w' this) = filter P (watchdogDataMap (dogs w this))"
    and timer: "timer (dogs w' this) =
                  (if filter P (watchdogDataMap (dogs w this)) = [] then None
                   else timer (dogs w this))"
    and counter: "counter (dogs w' this) = counter (dogs w this)"
    and datas: "datas w' = datas w" and nextData: "nextData w' = nextData w"
    and subs: "\<And>k d. (k, d) \<in> set (watchdogDataMap (dogs w this)) \<Longrightarrow> P (k, d) \<Longrightarrow>
                 subs w' (subscriber (datas w d)) = subs w (subscriber (datas w d))"
  shows "registry_ok this w'"
proof -
  have "sorted_wrt (<) (map fst (filter P (watchdogDataMap (dogs w this))))"
    using ok by (simp add: registry_ok_def obj_keys_def sorted_wrt_map sorted_wrt_filter)
  moreover have "list_all (linked this w') (filter P (watchdogDataMap (dogs w this)))"
    using ok subs
    by (auto simp add: registry_ok_def list_all_iff linked_def Let_def counter datas nextData)
  moreover have "filter P (watchdogDataMap (dogs w this)) \<noteq> [] \<Longrightarrow> timer (dogs w this) \<noteq> None"
    using registry_ok_timer [OF ok] by auto
  ultimately show ?thesis
    by (auto simp add: registry_ok_def obj_keys_def table timer)
qed

lemma registry_ok_same:
  assumes "registry_ok this w"
    and "watchdogDataMap (dogs w' this) = watchdogDataMap (dogs w this)"
    and "counter (dogs w' this) = counter (dogs w this)"
    and "timer (dogs w' this) = timer (dogs w this)"
    and "subs w' = subs w" and "nextData w' = nextData w"
    and "\<And>d. key (datas w' d) = key (datas w d)"
    and "\<And>d. subscriber (datas w' d) = subscriber (datas w d)"
  shows "registry_ok this w'"
  using assms by (simp add: registry_ok_def linked_def Let_def list_all_iff)

subsection \<open>The evictions of a pass\<close>

lemma removeSubscriber_entry:
  assumes ok: "registry_ok this w" and a: "(k, d) \<in> set (watchdogDataMap (dogs w this))"
  shows "fst (removeSubscriber this (subscriber (datas w d)) w) = Return ()"
    and "watchdogDataMap (dogs (snd (removeSubscriber this (subscriber (datas w d)) w)) this)
           = filter (\<lambda>kd. snd kd \<noteq> d) (watchdogDataMap (dogs w this))"
    and "subs (snd (removeSubscriber this (subscriber (datas w d)) w))
           = (subs w)(subscriber (datas w d) := (subs w (subscriber (datas w d)))
                \<lparr>watchDog := None, watchDogData := None, keepAlive := False\<rparr>)"
    and "registry_ok this (snd (removeSubscriber this (subscriber (datas w d)) w))"
proof -
  let ?s = "subscriber (datas w d)"
  let ?w' = "snd (removeSubscriber this ?s w)"
  have key: "key (datas w d) \<in> fst ` set (watchdogDataMap (dogs w this))"
    using a registry_okD(1) [OF ok a] by force
  note p = removeSubscriber_proceeds [OF registry_okD(4) [OF ok a] registry_okD(5) [OF ok a]
      registry_okD(6) [OF ok a] key]
  have del: "obj_delete (key (datas w d)) (watchdogDataMap (dogs w this))
      = filter (\<lambda>kd. snd kd \<noteq> d) (watchdogDataMap (dogs w this))"
    using registry_ok_delete [OF ok a] registry_okD(1) [OF ok a] by simp
  have timer: "timer (dogs w this) \<noteq> None"
    using registry_ok_timer [OF ok] a by auto
  show "fst (removeSubscriber this ?s w) = Return ()"
    using p(1) timer by simp
  show table: "watchdogDataMap (dogs ?w' this)
      = filter (\<lambda>kd. snd kd \<noteq> d) (watchdogDataMap (dogs w this))"
    using p(3) del by simp
  show subs: "subs ?w' = (subs w)(?s := (subs w ?s)
      \<lparr>watchDog := None, watchDogData := None, keepAlive := False\<rparr>)"
    by (rule p(2))
  show "registry_ok this ?w'"
  proof (rule registry_ok_shrink [OF ok table])
    show "timer (dogs ?w' this) =
        (if filter (\<lambda>kd. snd kd \<noteq> d) (watchdogDataMap (dogs w this)) = [] then None
         else timer (dogs w this))"
      using p(4) del by simp
    show "counter (dogs ?w' this) = counter (dogs w this)"
      by (rule removeSubscriber_dog_fields)
    show "datas ?w' = datas w" by (rule removeSubscriber_datas)
    show "nextData ?w' = nextData w" by (rule removeSubscriber_nextData)
    fix k' d'
    assume b: "(k', d') \<in> set (watchdogDataMap (dogs w this))" and "snd (k', d') \<noteq> d"
    then have "subscriber (datas w d') \<noteq> ?s"
      using registry_okD(5) [OF ok a] registry_okD(5) [OF ok b] by auto
    then show "subs ?w' (subscriber (datas w d')) = subs w (subscriber (datas w d'))"
      by (simp add: subs)
  qed
qed

lemma emits_eq: "calls a = calls b \<Longrightarrow> emits a = emits b"
  by (simp add: emits_def)

lemma outcall_emits:
  "emits (snd (outcall e (WatchdogReset s) w)) = emits w"
  "emits (snd (outcall e (OnClientSeen s) w)) = emits w"
  "emits (snd (outcall e (Emit g n b) w)) = emits w @ [(Emit g n b, heap.truncate w)]"
  by (simp_all add: emits_def)

lemma outcall_resets:
  "resets (snd (outcall e (WatchdogReset s) w)) = resets w @ [s]"
  "resets (snd (outcall e (OnClientSeen s) w)) = resets w"
  "resets (snd (outcall e (Emit g n b) w)) = resets w"
  by (simp_all add: resets_def)

lemma unit_completion:
  "fst (p :: unit completion \<times> world) \<noteq> Return () \<Longrightarrow> \<exists>x. p = (Throw x, snd p)"
  by (cases p; cases "fst p") auto

text \<open>
  What the \<open>forEach\<close> keeps: whatever every \<open>removeSubscriber\<close> and every call of
  \<open>watchdogReset()\<close> keeps, however the \<open>forEach\<close> ends.
\<close>

lemma forEach_expired_invariant:
  assumes rem: "\<And>s w. I w \<Longrightarrow> I (snd (removeSubscriber this s w))"
    and out: "\<And>s w. I w \<Longrightarrow> I (snd (outcall e (WatchdogReset s) w))"
    and "I w"
  shows "I (snd (forEach_expired e this ds w))"
  using assms(3)
proof (induction ds arbitrary: w)
  case Nil
  then show ?case by simp
next
  case (Cons d ds)
  let ?s = "subscriber (datas w d)"
  obtain c w1 where r: "removeSubscriber this ?s w = (c, w1)"
    by (cases "removeSubscriber this ?s w")
  have d1: "datas w1 = datas w"
    using removeSubscriber_datas [of this ?s w] by (simp add: r)
  have i1: "I w1" using rem [OF Cons.prems, of ?s] by (simp add: r)
  show ?case
  proof (cases c)
    case (Throw x)
    with i1 show ?thesis by (simp add: r)
  next
    case (Return u)
    show ?thesis
    proof (cases "watchdogReset (subs w1 ?s)")
      case False
      with i1 Return show ?thesis by (simp add: r d1 call_watchdogReset_def)
    next
      case True
      obtain c2 w2 where o: "outcall e (WatchdogReset ?s) w1 = (c2, w2)"
        by (cases "outcall e (WatchdogReset ?s) w1")
      have i2: "I w2" using out [OF i1, of ?s] by (simp add: o)
      show ?thesis
        using Return True i2 Cons.IH [OF i2]
        by (cases c2) (simp_all add: r d1 call_watchdogReset_def o)
    qed
  qed
qed

lemma forEach_expired_emits: "emits (snd (forEach_expired e this ds w)) = emits w"
  by (rule forEach_expired_invariant [where I = "\<lambda>w'. emits w' = emits w"])
    (simp_all add: outcall_emits emits_def removeSubscriber_calls)

lemma forEach_expired_visitCount:
  assumes "keeps_visitCount e d" and "d < nextData w"
  shows "visitCount (datas (snd (forEach_expired e this ds w)) d) = visitCount (datas w d)"
proof -
  have k: "d < nextData (snd (outcall e c w'))
      \<and> visitCount (datas (snd (outcall e c w')) d) = visitCount (datas w' d)"
    if "d < nextData w'" for c w'
    using assms(1) that by (simp add: keeps_visitCount_def outcall_store)
  have "d < nextData (snd (forEach_expired e this ds w))
      \<and> visitCount (datas (snd (forEach_expired e this ds w)) d) = visitCount (datas w d)"
    by (rule forEach_expired_invariant
          [where I = "\<lambda>w'. d < nextData w' \<and> visitCount (datas w' d) = visitCount (datas w d)"])
      (simp_all add: k assms(2) removeSubscriber_datas removeSubscriber_nextData)
  then show ?thesis by simp
qed

text \<open>One round of the \<open>forEach\<close> on an entry of a registry in order.\<close>

lemma forEach_expired_Cons:
  assumes ok: "registry_ok this w" and a: "(k, d) \<in> set (watchdogDataMap (dogs w this))"
  shows "forEach_expired e this (d # ds) w =
           (if fst (outcall e (WatchdogReset (subscriber (datas w d)))
                      (snd (removeSubscriber this (subscriber (datas w d)) w))) = Return ()
            then forEach_expired e this ds
                   (snd (outcall e (WatchdogReset (subscriber (datas w d)))
                      (snd (removeSubscriber this (subscriber (datas w d)) w))))
            else outcall e (WatchdogReset (subscriber (datas w d)))
                      (snd (removeSubscriber this (subscriber (datas w d)) w)))"
proof -
  let ?s = "subscriber (datas w d)"
  obtain c w1 where e: "removeSubscriber this ?s w = (c, w1)"
    by (cases "removeSubscriber this ?s w")
  note r = removeSubscriber_entry [OF ok a]
  from r(1) e have c: "c = Return ()" by simp
  have d1: "datas w1 = datas w"
    using removeSubscriber_datas [of this ?s w] by (simp add: e)
  have reset1: "watchdogReset (subs w1 ?s)"
    using registry_okD(7) [OF ok a] removeSubscriber_sub_fields(1) [of this ?s w]
    by (simp add: e)
  obtain c2 w2 where o: "outcall e (WatchdogReset ?s) w1 = (c2, w2)"
    by (cases "outcall e (WatchdogReset ?s) w1")
  show ?thesis
    using reset1 by (cases c2) (simp_all add: e c d1 call_watchdogReset_def o)
qed

lemma forEach_expired_ok:
  assumes "registry_ok this w" and "set ds \<subseteq> snd ` set (watchdogDataMap (dogs w this))"
    and "distinct ds"
    and "\<forall>d \<in> set ds. quiet e (WatchdogReset (subscriber (datas w d)))"
  shows "fst (forEach_expired e this ds w) = Return ()
    \<and> registry_ok this (snd (forEach_expired e this ds w))
    \<and> watchdogDataMap (dogs (snd (forEach_expired e this ds w)) this)
         = filter (\<lambda>kd. snd kd \<notin> set ds) (watchdogDataMap (dogs w this))
    \<and> datas (snd (forEach_expired e this ds w)) = datas w
    \<and> resets (snd (forEach_expired e this ds w))
         = resets w @ map (\<lambda>d. subscriber (datas w d)) ds
    \<and> (\<forall>s. subs (snd (forEach_expired e this ds w)) s
          = (if s \<in> (\<lambda>d. subscriber (datas w d)) ` set ds
             then (subs w s)\<lparr>watchDog := None, watchDogData := None, keepAlive := False\<rparr>
             else subs w s))"
  using assms
proof (induction ds arbitrary: w)
  case Nil
  then show ?case by simp
next
  case (Cons d ds)
  let ?s = "subscriber (datas w d)"
  let ?w1 = "snd (removeSubscriber this ?s w)"
  define w2 where "w2 = logged (WatchdogReset ?s) ?w1"
  from Cons.prems obtain k where a: "(k, d) \<in> set (watchdogDataMap (dogs w this))"
    by auto
  note r = removeSubscriber_entry [OF Cons.prems(1) a]
  have datas1: "datas ?w1 = datas w" by (rule removeSubscriber_datas)
  have q: "quiet e (WatchdogReset ?s)" using Cons.prems(4) by simp
  have unfold: "forEach_expired e this (d # ds) w = forEach_expired e this ds w2"
    unfolding w2_def
    by (simp only: forEach_expired_Cons [OF Cons.prems(1) a] outcall_quiet [OF q]
        fst_conv snd_conv simp_thms if_True)
  have table2: "watchdogDataMap (dogs w2 this)
      = filter (\<lambda>kd. snd kd \<noteq> d) (watchdogDataMap (dogs w this))"
    by (simp add: w2_def r(2))
  have ok2: "registry_ok this w2"
    unfolding w2_def by (rule registry_ok_same [OF r(4)]) simp_all
  have sub2: "set ds \<subseteq> snd ` set (watchdogDataMap (dogs w2 this))"
  proof
    fix x assume x: "x \<in> set ds"
    with Cons.prems(2) obtain kx where "(kx, x) \<in> set (watchdogDataMap (dogs w this))"
      by auto
    moreover from x Cons.prems(3) have "x \<noteq> d" by auto
    ultimately show "x \<in> snd ` set (watchdogDataMap (dogs w2 this))"
      by (force simp add: table2)
  qed
  have dist2: "distinct ds" using Cons.prems(3) by simp
  have datas2: "datas w2 = datas w" by (simp add: w2_def datas1)
  have q2: "\<forall>d \<in> set ds. quiet e (WatchdogReset (subscriber (datas w2 d)))"
    using Cons.prems(4) by (simp add: datas2)
  note IH = Cons.IH [OF ok2 sub2 dist2 q2]
  have resets2: "resets w2 = resets w @ [?s]"
    by (simp add: w2_def resets_def removeSubscriber_calls)
  have subs2: "subs w2 = (subs w)(?s := (subs w ?s)
      \<lparr>watchDog := None, watchDogData := None, keepAlive := False\<rparr>)"
    by (simp add: w2_def r(3))
  show ?case
    unfolding unfold using IH
    by (simp add: table2 datas2 resets2 subs2)
qed



subsection \<open>A whole pass\<close>

lemma visit_subscriber_unfold:
  "visit_subscriber e this w =
     and_then
       (if expiredSubscribers e this w \<noteq> []
        then emit e this ''timeout'' (expiredSubscribers e this w) (visited e this w)
        else (Return (), visited e this w))
       (\<lambda>_ w'. forEach_expired e this (expiredSubscribers e this w) w')"
  by (simp add: visit_subscriber_def expiredSubscribers_def visited_def Let_def
      case_prod_unfold)

lemma expiredSubscribers_eq:
  "expiredSubscribers e this w =
     filter (\<lambda>d. greater (subtract e (clock w) (lastSeen (datas w d))) (timeout (datas w d)))
       (obj_values (watchdogDataMap (dogs w this)))"
  by (simp add: expiredSubscribers_def filter_visit_fst hasExpired_def
      getCurrentSystemTick_def Let_def)

lemma visited_frame:
  "dogs (visited e this w) = (dogs w)(this := (dogs w this)\<lparr>currentTime := clock w\<rparr>)"
  "subs (visited e this w) = subs w"
  "clock (visited e this w) = clock w"
  "nextData (visited e this w) = nextData w"
  "calls (visited e this w) = calls w"
  by (simp_all add: visited_def filter_visit_frame getCurrentSystemTick_def Let_def)

lemma visited_datas:
  "key (datas (visited e this w) d) = key (datas w d)"
  "subscriber (datas (visited e this w) d) = subscriber (datas w d)"
  "timeout (datas (visited e this w) d) = timeout (datas w d)"
  "lastSeen (datas (visited e this w) d) = lastSeen (datas w d)"
  "visitCount (datas (visited e this w) d) =
     visitCount (datas w d) + count_list (obj_values (watchdogDataMap (dogs w this))) d"
  by (simp_all add: visited_def filter_visit_datas filter_visit_visitCount Let_def)

lemma visited_ok:
  assumes "registry_ok this w"
  shows "registry_ok this (visited e this w)"
  by (rule registry_ok_same [OF assms]) (simp_all add: visited_frame visited_datas)

text \<open>
  The \<open>emit\<close> of a pass, whatever the listeners and the subscribers do: one when the batch
  has an entry, none when it is empty.
\<close>

lemma visit_subscriber_emits:
  "emits (snd (visit_subscriber e this w))
     = emits w @ (if expiredSubscribers e this w = [] then []
                  else [(Emit this ''timeout'' (expiredSubscribers e this w),
                         heap.truncate (visited e this w))])"
proof (cases "expiredSubscribers e this w = []")
  case True
  then show ?thesis
    by (simp add: visit_subscriber_unfold emits_def visited_frame)
next
  case False
  define c where "c = Emit this ''timeout'' (expiredSubscribers e this w)"
  obtain r w3 where o: "outcall e c (visited e this w) = (r, w3)"
    by (cases "outcall e c (visited e this w)")
  have "emits w3 = emits (visited e this w) @ [(c, heap.truncate (visited e this w))]"
    using outcall_emits(3) [of e this "''timeout''" "expiredSubscribers e this w" "visited e this w"]
    by (simp add: c_def [symmetric] o)
  then have e3: "emits w3 = emits w @ [(c, heap.truncate (visited e this w))]"
    by (simp add: emits_def visited_frame)
  have v: "visit_subscriber e this w =
      and_then (r, w3) (\<lambda>_ w'. forEach_expired e this (expiredSubscribers e this w) w')"
    using False by (simp add: visit_subscriber_unfold emit_def c_def [symmetric] o)
  show ?thesis
    using False e3 by (cases r) (simp_all add: v forEach_expired_emits c_def)
qed

lemma visit_subscriber_visitCount:
  assumes "keeps_visitCount e d" and "d < nextData w"
  shows "visitCount (datas (snd (visit_subscriber e this w)) d) =
     visitCount (datas w d) + count_list (obj_values (watchdogDataMap (dogs w this))) d"
proof -
  define b where "b = expiredSubscribers e this w"
  define p where "p = (if b \<noteq> [] then emit e this ''timeout'' b (visited e this w)
        else (Return (), visited e this w))"
  obtain r w3 where o: "p = (r, w3)" by (cases p)
  have n0: "d < nextData (visited e this w)"
    using assms(2) by (simp add: visited_frame)
  have "d < nextData (snd p)
      \<and> visitCount (datas (snd p) d) = visitCount (datas (visited e this w) d)"
    using assms(1) n0 by (simp add: p_def emit_def outcall_store keeps_visitCount_def)
  then have n3: "d < nextData w3"
    and v3: "visitCount (datas w3 d) =
      visitCount (datas w d) + count_list (obj_values (watchdogDataMap (dogs w this))) d"
    by (simp_all add: o visited_datas)
  have v: "visit_subscriber e this w = and_then (r, w3) (\<lambda>_ w'. forEach_expired e this b w')"
    by (simp only: visit_subscriber_unfold b_def [symmetric] p_def [symmetric] o)
  show ?thesis
    using v3 by (cases r) (simp_all add: v forEach_expired_visitCount [OF assms(1) n3])
qed

text \<open>A pass whose listeners and subscribers return without changing the store.\<close>

lemma visit_subscriber_ok:
  assumes ok: "registry_ok this w" and quiet: "quiet_pass e this w"
  shows "fst (visit_subscriber e this w) = Return ()"
    and "registry_ok this (snd (visit_subscriber e this w))"
    and "watchdogDataMap (dogs (snd (visit_subscriber e this w)) this)
           = filter (\<lambda>kd. snd kd \<notin> set (expiredSubscribers e this w))
               (watchdogDataMap (dogs w this))"
    and "resets (snd (visit_subscriber e this w))
           = resets w @ map (\<lambda>d. subscriber (datas w d)) (expiredSubscribers e this w)"
    and "subs (snd (visit_subscriber e this w)) s
           = (if s \<in> (\<lambda>d. subscriber (datas w d)) ` set (expiredSubscribers e this w)
              then (subs w s)\<lparr>watchDog := None, watchDogData := None, keepAlive := False\<rparr>
              else subs w s)"
proof -
  define b where "b = expiredSubscribers e this w"
  define w3 where "w3 = (if b \<noteq> [] then logged (Emit this ''timeout'' b) (visited e this w)
                         else visited e this w)"
  have qe: "quiet e (Emit this ''timeout'' b)"
    and qr: "\<forall>d \<in> set b. quiet e (WatchdogReset (subscriber (datas w d)))"
    using quiet by (simp_all add: quiet_pass_def b_def)
  have v: "visit_subscriber e this w = forEach_expired e this b w3"
    by (simp add: visit_subscriber_unfold b_def [symmetric] w3_def emit_def outcall_quiet [OF qe])
  have dog3: "dogs w3 this = (dogs w this)\<lparr>currentTime := clock w\<rparr>"
    by (simp add: w3_def visited_frame)
  have table3: "watchdogDataMap (dogs w3 this) = watchdogDataMap (dogs w this)"
    by (simp add: dog3)
  have subs3: "subs w3 = subs w"
    by (simp add: w3_def visited_frame)
  have key3: "key (datas w3 d) = key (datas w d)" for d
    by (simp add: w3_def visited_datas)
  have sub3: "subscriber (datas w3 d) = subscriber (datas w d)" for d
    by (simp add: w3_def visited_datas)
  have ok3: "registry_ok this w3"
  proof (rule registry_ok_same [OF ok])
    show "nextData w3 = nextData w"
      by (simp add: w3_def visited_frame)
  qed (simp_all add: dog3 subs3 key3 sub3)
  have b_sub: "set b \<subseteq> snd ` set (watchdogDataMap (dogs w3 this))"
    by (auto simp add: b_def expiredSubscribers_eq obj_values_def table3)
  have b_dist: "distinct b"
    using registry_ok_distinct_values [OF ok]
    by (simp add: b_def expiredSubscribers_eq obj_values_def)
  have q3: "\<forall>d \<in> set b. quiet e (WatchdogReset (subscriber (datas w3 d)))"
    using qr by (simp add: sub3)
  note F = forEach_expired_ok [OF ok3 b_sub b_dist q3]
  have resets3: "resets w3 = resets w"
    by (simp add: w3_def resets_def visited_frame)
  show "fst (visit_subscriber e this w) = Return ()"
    using F by (simp add: v)
  show "registry_ok this (snd (visit_subscriber e this w))"
    using F by (simp add: v)
  show "watchdogDataMap (dogs (snd (visit_subscriber e this w)) this)
      = filter (\<lambda>kd. snd kd \<notin> set (expiredSubscribers e this w)) (watchdogDataMap (dogs w this))"
    using F by (simp add: v table3 b_def)
  show "resets (snd (visit_subscriber e this w))
      = resets w @ map (\<lambda>d. subscriber (datas w d)) (expiredSubscribers e this w)"
    using F by (simp add: v resets3 sub3 b_def)
  show "subs (snd (visit_subscriber e this w)) s
      = (if s \<in> (\<lambda>d. subscriber (datas w d)) ` set (expiredSubscribers e this w)
         then (subs w s)\<lparr>watchDog := None, watchDogData := None, keepAlive := False\<rparr>
         else subs w s)"
    using F by (simp add: v subs3 sub3 b_def)
qed



subsection \<open>The example worlds, evaluated\<close>

lemma one_registered_eq:
  "one_registered =
     \<lparr>clock = 0,
      dogs = (\<lambda>_. \<lparr>watchdogDataMap = [], counter = 0, currentTime = 0, timer = None\<rparr>)
        (0 := \<lparr>watchdogDataMap = [(1, 0)], counter = 1, currentTime = 0, timer = Some 1000\<rparr>),
      subs = (\<lambda>_. fresh_subscriber)
        (1 := \<lparr>watchDog = Some 0, watchDogData = Some 0, watchdogReset = True,
               keepAlive = True, onClientSeen = False\<rparr>),
      datas = (\<lambda>_. \<lparr>key = 0, subscriber = 0, timeout = NaN, lastSeen = 0, visitCount = 0\<rparr>)
        (0 := \<lparr>key = 1, subscriber = 1, timeout = Finite 50, lastSeen = 0, visitCount = 0\<rparr>),
      nextData = 1,
      calls = []\<rparr>"
  by (simp add: one_registered_def run_defs)

lemma two_dogs_eq:
  "two_dogs =
     \<lparr>clock = 0,
      dogs = (\<lambda>_. \<lparr>watchdogDataMap = [], counter = 0, currentTime = 0, timer = None\<rparr>)
        (0 := \<lparr>watchdogDataMap = [(1, 0)], counter = 1, currentTime = 0, timer = Some 1000\<rparr>,
         1 := \<lparr>watchdogDataMap = [(1, 1)], counter = 1, currentTime = 0, timer = Some 1000\<rparr>),
      subs = (\<lambda>_. fresh_subscriber)
        (1 := \<lparr>watchDog = Some 0, watchDogData = Some 0, watchdogReset = True,
               keepAlive = True, onClientSeen = False\<rparr>,
         2 := \<lparr>watchDog = Some 1, watchDogData = Some 1, watchdogReset = True,
               keepAlive = True, onClientSeen = False\<rparr>),
      datas = (\<lambda>_. \<lparr>key = 0, subscriber = 0, timeout = NaN, lastSeen = 0, visitCount = 0\<rparr>)
        (0 := \<lparr>key = 1, subscriber = 1, timeout = Finite 50, lastSeen = 0, visitCount = 0\<rparr>,
         1 := \<lparr>key = 1, subscriber = 2, timeout = Finite 50, lastSeen = 0, visitCount = 0\<rparr>),
      nextData = 2,
      calls = []\<rparr>"
  by (simp add: two_dogs_def run_defs numeral_2_eq_2)

lemma sweep_ready_eq:
  "sweep_ready =
     \<lparr>clock = 2000,
      dogs = (\<lambda>_. \<lparr>watchdogDataMap = [], counter = 0, currentTime = 0, timer = None\<rparr>)
        (0 := \<lparr>watchdogDataMap = [(1, 0), (2, 1), (3, 2)], counter = 3, currentTime = 0,
               timer = Some 1000\<rparr>),
      subs = (\<lambda>_. fresh_subscriber)
        (1 := \<lparr>watchDog = Some 0, watchDogData = Some 0, watchdogReset = True,
               keepAlive = True, onClientSeen = False\<rparr>,
         2 := \<lparr>watchDog = Some 0, watchDogData = Some 1, watchdogReset = True,
               keepAlive = True, onClientSeen = False\<rparr>,
         3 := \<lparr>watchDog = Some 0, watchDogData = Some 2, watchdogReset = True,
               keepAlive = True, onClientSeen = False\<rparr>),
      datas = (\<lambda>_. \<lparr>key = 0, subscriber = 0, timeout = NaN, lastSeen = 0, visitCount = 0\<rparr>)
        (0 := \<lparr>key = 1, subscriber = 1, timeout = Finite 50, lastSeen = 0, visitCount = 0\<rparr>,
         1 := \<lparr>key = 2, subscriber = 2, timeout = Finite 50, lastSeen = 0, visitCount = 0\<rparr>,
         2 := \<lparr>key = 3, subscriber = 3, timeout = Finite 2000, lastSeen = 0,
               visitCount = 0\<rparr>),
      nextData = 3,
      calls = []\<rparr>"
  by (simp add: sweep_ready_def run_defs numeral_2_eq_2 numeral_3_eq_3)


lemma sweep_ready_ok: "registry_ok 0 sweep_ready"
  by (simp add: sweep_ready_eq registry_ok_def linked_def obj_keys_def)

lemma sweep_ready_expired: "expiredSubscribers silent 0 sweep_ready = [0, 1]"
  by (simp add: expiredSubscribers_eq sweep_ready_eq obj_values_def silent_def)

lemma sweep_ready_expired_throwing: "expiredSubscribers throwing 0 sweep_ready = [0, 1]"
  by (simp add: expiredSubscribers_eq sweep_ready_eq obj_values_def throwing_def)


lemma rounding_quiet [simp]: "quiet rounding c"
  by (simp add: quiet_def rounding_def)




lemma world_of_sel [simp]:
  "clock (world_of h) = clock h" "dogs (world_of h) = dogs h" "subs (world_of h) = subs h"
  "datas (world_of h) = datas h" "nextData (world_of h) = nextData h" "calls (world_of h) = []"
  by (simp_all add: world_of_def)

lemma reregistering_callee:
  "snd (callee reregistering (WatchdogReset s) h)
     = heap.truncate (snd (addSubscriber silent 0 s (Finite 50) (world_of h)))"
  "callee reregistering (OnClientSeen s) h = (Return (), h)"
  "callee reregistering (Emit g n b) h = (Return (), h)"
  by (simp_all add: reregistering_def split: prod.splits completion.splits)

lemma sweep_ready_expired_reregistering: "expiredSubscribers reregistering 0 sweep_ready = [0, 1]"
  by (simp add: expiredSubscribers_eq sweep_ready_eq obj_values_def reregistering_def)

text \<open>
  A pass in which the two subscribers that are evicted register again: it ends with three
  subscribers, the timer set, and \<open>keepAlive\<close> bound anew.
\<close>

lemma reregistering_pass:
  "fst (visit_subscriber reregistering 0 sweep_ready) = Return ()"
  "watchdogDataMap (dogs (snd (visit_subscriber reregistering 0 sweep_ready)) 0)
     = [(3, 2), (4, 3), (5, 4)]"
  "timer (dogs (snd (visit_subscriber reregistering 0 sweep_ready)) 0) = Some 1000"
  "subs (snd (visit_subscriber reregistering 0 sweep_ready)) 1
     = \<lparr>watchDog = Some 0, watchDogData = Some 3, watchdogReset = True,
         keepAlive = True, onClientSeen = False\<rparr>"
  by (simp_all add: sweep_ready_eq run_defs reregistering_def world_of_def
      numeral_2_eq_2 numeral_3_eq_3)

lemma addSubscriber_allocated:
  assumes "d < nextData w"
  shows "d < nextData (snd (addSubscriber silent this s t w))"
    and "datas (snd (addSubscriber silent this s t w)) d = datas w d"
proof -
  have "d < nextData (snd (addSubscriber silent this s t w))
      \<and> datas (snd (addSubscriber silent this s t w)) d = datas w d"
  proof (cases "watchdogReset (subs w s) \<and> \<not> keepAlive (subs w s)")
    case False
    then have "addSubscriber silent this s t w =
        (Throw AssertionError, upd_dog this (\<lambda>g. g\<lparr>currentTime := clock w\<rparr>) w)"
      by (intro addSubscriber_refused) auto
    with assms show ?thesis by simp
  next
    case True
    then have a: "watchdogReset (subs w s)" and b: "\<not> keepAlive (subs w s)" by auto
    have h: "onClientSeen (subs w s) \<longrightarrow> still silent (OnClientSeen s)
        \<and> fst (callee silent (OnClientSeen s) (heap.truncate (stored this s t w))) = Return ()"
      by (simp add: still_def silent_def)
    note p = addSubscriber_proceeds [OF a b h]
    from assms show ?thesis by (simp add: p(6) p(7))
  qed
  then show "d < nextData (snd (addSubscriber silent this s t w))"
    and "datas (snd (addSubscriber silent this s t w)) d = datas w d"
    by simp_all
qed

lemma reregistering_keeps: "keeps_visitCount reregistering d"
proof -
  have "d < nextData (snd (callee reregistering c h))
      \<and> visitCount (datas (snd (callee reregistering c h)) d) = visitCount (datas h d)"
    if "d < nextData h" for c h
  proof (cases c)
    case (WatchdogReset s)
    from that have "d < nextData (world_of h)" by simp
    from addSubscriber_allocated [OF this, of 0 s "Finite 50"] show ?thesis
      by (simp add: WatchdogReset reregistering_callee)
  next
    case (Emit g n b)
    with that show ?thesis by (simp add: reregistering_callee)
  next
    case (OnClientSeen s)
    with that show ?thesis by (simp add: reregistering_callee)
  qed
  then show ?thesis by (simp add: keeps_visitCount_def)
qed

lemma silent_keeps: "keeps_visitCount silent d"
  by (simp add: keeps_visitCount_def silent_def)

lemma throwing_keeps: "keeps_visitCount throwing d"
  by (simp add: keeps_visitCount_def throwing_def)

lemma quiet_pass_silent: "quiet_pass silent this w"
  by (simp add: quiet_pass_def)

lemma throwing_still [simp]: "still throwing c"
  by (simp add: still_def throwing_def)


lemma quiet_pass_still: "quiet_pass e this w \<Longrightarrow> still_pass e this w"
  by (simp add: quiet_pass_def still_pass_def quiet_still)

lemma count_list_distinct: "distinct xs \<Longrightarrow> x \<in> set xs \<Longrightarrow> count_list xs x = 1"
  by (induction xs) auto

lemma registry_ok_value:
  "(k, d) \<in> set (watchdogDataMap (dogs w this))
   \<Longrightarrow> d \<in> set (obj_values (watchdogDataMap (dogs w this)))"
  by (force simp add: obj_values_def)

lemma length_filter_values:
  assumes "distinct (map snd m)"
  shows "length (filter (\<lambda>kd. snd kd \<notin> set (filter E (map snd m))) m)
           = length m - length (filter E (map snd m))"
proof -
  have "filter (\<lambda>kd. snd kd \<notin> set (filter E (map snd m))) m = filter (\<lambda>kd. \<not> E (snd kd)) m"
    by (rule filter_cong) auto
  moreover have "length (filter E (map snd m)) = length (filter (\<lambda>kd. E (snd kd)) m)"
    by (simp add: filter_map comp_def)
  moreover have "length (filter (\<lambda>kd. E (snd kd)) m) + length (filter (\<lambda>kd. \<not> E (snd kd)) m)
      = length m"
    by (rule sum_length_filter_compl)
  ultimately show ?thesis by simp
qed


subsection \<open>The timer\<close>

lemma timer_matches_same:
  "timer_matches g w \<Longrightarrow> watchdogDataMap (dogs w' g) = watchdogDataMap (dogs w g)
   \<Longrightarrow> timer (dogs w' g) = timer (dogs w g) \<Longrightarrow> timer_matches g w'"
  by (simp add: timer_matches_def subscriberCount_def)

lemma timer_matches_dogs:
  "dogs w' g = dogs w g \<Longrightarrow> timer_matches g w' = timer_matches g w"
  by (simp add: timer_matches_def subscriberCount_def)

lemma obj_set_nonempty: "obj_set k v m \<noteq> []"
  by (cases m) (auto split: if_splits)

lemma tame_hook:
  assumes "tame e g"
  shows "fst (callee e (OnClientSeen s) h) = Return ()"
    and "dogs (snd (callee e (OnClientSeen s) h)) g = dogs h g"
proof -
  from assms have "\<forall>c h. case c of
          OnClientSeen s \<Rightarrow>
            fst (callee e c h) = Return () \<and> dogs (snd (callee e c h)) g = dogs h g
        | _ \<Rightarrow> timer_matches g h \<longrightarrow> timer_matches g (snd (callee e c h))"
    by (simp add: tame_def)
  then have "case OnClientSeen s of
          OnClientSeen s \<Rightarrow>
            fst (callee e (OnClientSeen s) h) = Return ()
            \<and> dogs (snd (callee e (OnClientSeen s) h)) g = dogs h g
        | _ \<Rightarrow> True"
    by (auto split: call.splits)
  then show "fst (callee e (OnClientSeen s) h) = Return ()"
    and "dogs (snd (callee e (OnClientSeen s) h)) g = dogs h g"
    by simp_all
qed

lemma tame_other:
  assumes "tame e g" and "timer_matches g h"
  shows "timer_matches g (snd (callee e (WatchdogReset s) h))"
    and "timer_matches g (snd (callee e (Emit a n b) h))"
proof -
  from assms(1) have t: "\<And>c h. case c of
          OnClientSeen s \<Rightarrow>
            fst (callee e c h) = Return () \<and> dogs (snd (callee e c h)) g = dogs h g
        | _ \<Rightarrow> timer_matches g h \<longrightarrow> timer_matches g (snd (callee e c h))"
    by (simp add: tame_def)
  show "timer_matches g (snd (callee e (WatchdogReset s) h))"
    using t [where c = "WatchdogReset s" and h = h] assms(2) by simp
  show "timer_matches g (snd (callee e (Emit a n b) h))"
    using t [where c = "Emit a n b" and h = h] assms(2) by simp
qed

lemma outcall_timer_matches:
  assumes "tame e g" and "timer_matches g w"
  shows "timer_matches g (snd (outcall e (WatchdogReset s) w))"
    and "timer_matches g (snd (outcall e (Emit a n b) w))"
proof -
  have t: "timer_matches g (heap.truncate w)"
    using assms(2) by (simp add: timer_matches_def subscriberCount_def)
  have "timer_matches g (snd (outcall e c w)) = timer_matches g (snd (callee e c (heap.truncate w)))"
    for c
    by (rule timer_matches_dogs) (simp add: outcall_store)
  then show "timer_matches g (snd (outcall e (WatchdogReset s) w))"
    and "timer_matches g (snd (outcall e (Emit a n b) w))"
    using tame_other [OF assms(1) t] by simp_all
qed

lemma silent_tame: "tame silent g"
  by (simp add: tame_def silent_def split: call.splits)

lemma addSubscriber_timer_matches:
  assumes tame: "tame e g" and tm: "timer_matches g w"
  shows "timer_matches g (snd (addSubscriber e this s t w))"
proof (cases "watchdogReset (subs w s) \<and> \<not> keepAlive (subs w s)")
  case False
  then have "addSubscriber e this s t w =
      (Throw AssertionError, upd_dog this (\<lambda>g. g\<lparr>currentTime := clock w\<rparr>) w)"
    by (intro addSubscriber_refused) auto
  then show ?thesis
    using tm by (auto simp add: timer_matches_def subscriberCount_def)
next
  case ok: True
  then have a: "watchdogReset (subs w s)" and b: "\<not> keepAlive (subs w s)" by auto
  define c where "c = OnClientSeen s"
  define k where "k = counter (dogs w this) + 1"
  define X where "X = (if onClientSeen (subs w s) then outcall e c (stored this s t w)
              else (Return (), stored this s t w))"
  have u: "addSubscriber e this s t w = and_then X (\<lambda>_. bind_and_start this s k)"
    unfolding X_def c_def k_def by (rule addSubscriber_unfold [OF a b])
  have x1: "fst X = Return ()"
    by (simp add: X_def c_def outcall_fst tame_hook(1) [OF tame])
  have x2: "dogs (snd X) g = dogs (stored this s t w) g"
  proof (cases "onClientSeen (subs w s)")
    case True
    then show ?thesis
      by (simp only: X_def c_def if_True outcall_store tame_hook(2) [OF tame] truncate_sel)
  next
    case False
    then show ?thesis
      by (simp only: X_def if_False snd_conv)
  qed
  obtain w1 where x: "X = (Return (), w1)" using x1 by (cases X) simp
  from x2 x have d1: "dogs w1 g = dogs (stored this s t w) g" by simp
  have v: "snd (addSubscriber e this s t w) = snd (bind_and_start this s k w1)"
    by (simp add: u x)
  show ?thesis
  proof (cases "g = this")
    case False
    with d1 have "dogs (snd (bind_and_start this s k w1)) g = dogs w g"
      by (simp add: bind_and_start_facts)
    then have "timer_matches g (snd (bind_and_start this s k w1)) = timer_matches g w"
      by (rule timer_matches_dogs)
    then show ?thesis
      unfolding v using tm by simp
  next
    case True
    have table: "watchdogDataMap (dogs w1 this)
        = obj_set k (nextData w) (watchdogDataMap (dogs w this))"
      and timer: "timer (dogs w1 this) = timer (dogs w this)"
      using d1 True by (simp_all add: k_def)
    show ?thesis
    proof (cases "timer (dogs w this)")
      case None
      with tm True have "watchdogDataMap (dogs w this) = []"
        by (simp add: timer_matches_def subscriberCount_def obj_keys_def)
      with None True show ?thesis
        unfolding v
        by (simp add: timer_matches_def subscriberCount_def obj_keys_def bind_and_start_facts
            table timer)
    next
      case (Some n)
      with True show ?thesis
        unfolding v
        by (simp add: timer_matches_def subscriberCount_def obj_keys_def bind_and_start_facts
            table timer obj_set_nonempty)
    qed
  qed
qed

lemma reregistering_tame: "tame reregistering g"
proof -
  have "timer_matches g (snd (callee reregistering (WatchdogReset s) h))"
    if "timer_matches g h" for s h
  proof -
    from that have "timer_matches g (world_of h)"
      by (simp add: timer_matches_def subscriberCount_def)
    then have "timer_matches g (snd (addSubscriber silent 0 s (Finite 50) (world_of h)))"
      by (rule addSubscriber_timer_matches [OF silent_tame])
    then show ?thesis
      by (simp add: reregistering_callee timer_matches_def subscriberCount_def)
  qed
  then show ?thesis
    by (simp add: tame_def reregistering_callee split: call.splits)
qed

lemma removeSubscriber_timer_matches:
  assumes tm: "timer_matches g w"
  shows "timer_matches g (snd (removeSubscriber this s w))"
proof (cases "g = this")
  case False
  then show ?thesis
    by (intro timer_matches_same [OF tm]) (simp_all add: removeSubscriber_dogs_other)
next
  case True
  show ?thesis
  proof (cases "watchDog (subs w s)")
    case None
    then show ?thesis using tm by (simp add: removeSubscriber_unset)
  next
    case (Some g')
    note wd = this
    show ?thesis
    proof (cases "watchDogData (subs w s)")
      case None
      with wd show ?thesis using tm by (simp add: removeSubscriber_nodata)
    next
      case (Some d)
      show ?thesis
      proof (cases "keepAlive (subs w s)
          \<and> key (datas w d) \<in> fst ` set (watchdogDataMap (dogs w this))")
        case False
        then have "removeSubscriber this s w = (Throw AssertionError, w)"
          using removeSubscriber_refused [OF wd Some] by blast
        then show ?thesis using tm by simp
      next
        case ok: True
        then have a: "keepAlive (subs w s)"
          and b: "key (datas w d) \<in> fst ` set (watchdogDataMap (dogs w this))" by auto
        note p = removeSubscriber_proceeds [OF wd Some a b]
        show ?thesis
        proof (cases "obj_delete (key (datas w d)) (watchdogDataMap (dogs w this)) = []")
          case True
          with \<open>g = this\<close> show ?thesis
            by (simp add: timer_matches_def subscriberCount_def obj_keys_def p(3) p(4))
        next
          case False
          then have "watchdogDataMap (dogs w this) \<noteq> []"
            by (auto simp add: obj_delete_def)
          with tm \<open>g = this\<close> have "timer (dogs w this) \<noteq> None"
            by (simp add: timer_matches_def subscriberCount_def obj_keys_def)
          with False \<open>g = this\<close> show ?thesis
            by (simp add: timer_matches_def subscriberCount_def obj_keys_def p(3) p(4))
        qed
      qed
    qed
  qed
qed

lemma keepAliveFunc_timer_matches:
  assumes "tame e g" and "timer_matches g w"
  shows "timer_matches g (snd (keepAliveFunc e s w))"
proof -
  have "dogs (snd (keepAliveFunc e s w)) g = dogs w g"
    by (rule keepAliveFunc_dogs) (rule tame_hook(2) [OF assms(1)])
  then have "timer_matches g (snd (keepAliveFunc e s w)) = timer_matches g w"
    by (rule timer_matches_dogs)
  then show ?thesis using assms(2) by simp
qed

lemma forEach_expired_timer_matches:
  assumes "tame e g" and "timer_matches g w"
  shows "timer_matches g (snd (forEach_expired e this ds w))"
  by (rule forEach_expired_invariant [where I = "timer_matches g"])
    (simp_all add: removeSubscriber_timer_matches outcall_timer_matches(1) assms)

lemma visit_subscriber_timer_matches:
  assumes "tame e g" and "timer_matches g w"
  shows "timer_matches g (snd (visit_subscriber e this w))"
proof -
  define b where "b = expiredSubscribers e this w"
  define p where "p = (if b \<noteq> [] then emit e this ''timeout'' b (visited e this w)
        else (Return (), visited e this w))"
  have v: "visit_subscriber e this w = and_then p (\<lambda>_ w'. forEach_expired e this b w')"
    by (simp only: visit_subscriber_unfold b_def [symmetric] p_def [symmetric])
  have t0: "timer_matches g (visited e this w)"
    by (rule timer_matches_same [OF assms(2)]) (simp_all add: visited_frame)
  have t3: "timer_matches g (snd p)"
    using t0 by (simp add: p_def emit_def outcall_timer_matches(2) [OF assms(1)])
  obtain r w3 where o: "p = (r, w3)" by (cases p)
  from t3 o have "timer_matches g w3" by simp
  then show ?thesis
    by (cases r) (simp_all add: v o forEach_expired_timer_matches [OF assms(1)])
qed

lemma constructor_timer_matches:
  "timer_matches this (constructor this w)"
  "timer_matches g w \<Longrightarrow> timer_matches g (constructor this w)"
  by (simp_all add: timer_matches_def subscriberCount_def obj_keys_def constructor_def)

lemma step_timer_matches:
  assumes "tame e g" and "timer_matches g w"
  shows "timer_matches g (step e x w)"
proof (cases x)
  case (New this)
  show ?thesis
    unfolding New step.simps by (rule constructor_timer_matches(2) [OF assms(2)])
next
  case (Add this s t)
  show ?thesis
    unfolding Add step.simps by (rule addSubscriber_timer_matches [OF assms])
next
  case (Remove this s)
  show ?thesis
    unfolding Remove step.simps by (rule removeSubscriber_timer_matches [OF assms(2)])
next
  case (KeepAlive s)
  show ?thesis
    unfolding KeepAlive step.simps by (rule keepAliveFunc_timer_matches [OF assms])
next
  case (Fire this)
  show ?thesis
    using assms(2) visit_subscriber_timer_matches [OF assms, of this]
    unfolding Fire step.simps by simp
next
  case (Clock t)
  with assms(2) show ?thesis
    by (simp add: timer_matches_def subscriberCount_def)
qed

lemma run_timer_matches:
  "tame e g \<Longrightarrow> timer_matches g w \<Longrightarrow> timer_matches g (run e xs w)"
proof (induction xs arbitrary: w)
  case Nil
  then show ?case by simp
next
  case (Cons x xs)
  have "timer_matches g (step e x w)"
    by (rule step_timer_matches [OF Cons.prems])
  then have "timer_matches g (run e xs (step e x w))"
    by (rule Cons.IH [OF Cons.prems(1)])
  then show ?case by simp
qed

lemma fresh_at_start:
  "watchdogReset (subs (constructor 0 start) 1)" "\<not> keepAlive (subs (constructor 0 start) 1)"
  "watchdogDataMap (dogs (constructor 0 start) 0) = []" "timer (dogs (constructor 0 start) 0) = None"
  "counter (dogs (constructor 0 start) 0) = 0" "nextData (constructor 0 start) = 0"
  "\<not> onClientSeen (subs (constructor 0 start) 1)"
  by (simp_all add: constructor_def start_def fresh_subscriber_def)


subsection \<open>The registries stay in order\<close>

text \<open>
  \<open>registry_ok\<close> holds of every WatchDog in the world \<open>start\<close>, and every step keeps it for
  every WatchDog, provided \<open>removeSubscriber\<close> is only called on the WatchDog that the
  subscriber is registered with (\<open>proper\<close>), every \<open>onClientSeen()\<close> returns, and the callees
  leave the store as it is; the listeners and the \<open>watchdogReset()\<close> hooks may throw. So it
  holds after every such run.
\<close>

lemma registry_ok_transfer:
  assumes ok: "registry_ok g w"
    and "watchdogDataMap (dogs w' g) = watchdogDataMap (dogs w g)"
    and "counter (dogs w g) \<le> counter (dogs w' g)"
    and "timer (dogs w' g) = timer (dogs w g)"
    and "nextData w \<le> nextData w'"
    and "\<And>k d. (k, d) \<in> set (watchdogDataMap (dogs w g)) \<Longrightarrow>
           key (datas w' d) = key (datas w d) \<and> subscriber (datas w' d) = subscriber (datas w d)
           \<and> subs w' (subscriber (datas w d)) = subs w (subscriber (datas w d))"
  shows "registry_ok g w'"
proof -
  have "linked g w' kd" if m: "kd \<in> set (watchdogDataMap (dogs w g))" for kd
  proof -
    obtain k d where kd: "kd = (k, d)" by (cases kd)
    note D = registry_okD [OF ok m [unfolded kd]]
    from assms(6) [OF m [unfolded kd]] D assms(3,5) show ?thesis
      by (simp add: linked_def Let_def kd)
  qed
  with ok assms(2,4) show ?thesis
    by (simp add: registry_ok_def list_all_iff)
qed

lemma obj_set_append:
  "\<forall>k' \<in> set (obj_keys m). k' < k \<Longrightarrow> obj_set k v m = m @ [(k, v)]"
  by (induction m) (auto simp add: obj_keys_def)

lemma start_ok: "registry_ok g start"
  by (simp add: registry_ok_def start_def obj_keys_def)

lemma constructor_ok:
  assumes "registry_ok g w"
  shows "registry_ok g (constructor this w)"
proof (cases "g = this")
  case True
  then show ?thesis
    by (simp add: registry_ok_def constructor_def obj_keys_def)
next
  case False
  then show ?thesis
    by (intro registry_ok_transfer [OF assms]) (simp_all add: constructor_def)
qed

lemma addSubscriber_ok:
  assumes ok: "registry_ok g w" and q: "onClientSeen (subs w s) \<longrightarrow> quiet e (OnClientSeen s)"
  shows "registry_ok g (snd (addSubscriber e this s t w))"
proof (cases "watchdogReset (subs w s) \<and> \<not> keepAlive (subs w s)")
  case False
  then have "addSubscriber e this s t w =
      (Throw AssertionError, upd_dog this (\<lambda>g. g\<lparr>currentTime := clock w\<rparr>) w)"
    by (intro addSubscriber_refused) auto
  then have e: "snd (addSubscriber e this s t w) = upd_dog this (\<lambda>g. g\<lparr>currentTime := clock w\<rparr>) w"
    by simp
  show ?thesis
    unfolding e by (rule registry_ok_transfer [OF ok]) simp_all
next
  case True
  then have a: "watchdogReset (subs w s)" and b: "\<not> keepAlive (subs w s)" by auto
  have hook: "onClientSeen (subs w s) \<longrightarrow> still e (OnClientSeen s)
           \<and> fst (callee e (OnClientSeen s) (heap.truncate (stored this s t w))) = Return ()"
    using q by (simp add: quiet_def still_def)
  note p = addSubscriber_proceeds [OF a b hook]
  let ?w' = "snd (addSubscriber e this s t w)"
  have old: "key (datas ?w' d) = key (datas w d)
      \<and> subscriber (datas ?w' d) = subscriber (datas w d)
      \<and> subs ?w' (subscriber (datas w d)) = subs w (subscriber (datas w d))"
    if m: "(k, d) \<in> set (watchdogDataMap (dogs w g))" for k d
  proof -
    note D = registry_okD [OF ok m]
    from D(3) have "d \<noteq> nextData w" by simp
    moreover from D(6) b have "subscriber (datas w d) \<noteq> s" by auto
    ultimately show ?thesis by (simp add: p(5) p(6))
  qed
  show ?thesis
  proof (cases "g = this")
    case False
    then have "dogs ?w' g = dogs w g" using p(9) [of g] by simp
    then show ?thesis
      by (intro registry_ok_transfer [OF ok]) (use old in \<open>simp_all add: p(7)\<close>)
  next
    case g: True
    let ?k = "counter (dogs w this) + 1"
    let ?m = "watchdogDataMap (dogs w this)"
    have small: "\<forall>k' \<in> set (obj_keys ?m). k' < ?k"
      using registry_okD(2) [OF ok] g by (fastforce simp add: obj_keys_def)
    have table: "watchdogDataMap (dogs ?w' this) = ?m @ [(?k, nextData w)]"
      unfolding p(2) by (rule obj_set_append [OF small])
    have sorted: "sorted_wrt (<) (obj_keys (?m @ [(?k, nextData w)]))"
      using ok g small by (simp add: registry_ok_def obj_keys_def sorted_wrt_append)
    have "linked this ?w' kd" if m: "kd \<in> set ?m" for kd
    proof -
      obtain k d where kd: "kd = (k, d)" by (cases kd)
      from m have m': "(k, d) \<in> set (watchdogDataMap (dogs w g))" by (simp add: kd g)
      note D = registry_okD [OF ok m']
      from old [OF m'] D g show ?thesis
        by (simp add: linked_def Let_def kd p(3) p(7))
    qed
    moreover have "linked this ?w' (?k, nextData w)"
      using a by (simp add: linked_def Let_def p(3) p(5) p(6) p(7))
    moreover have "timer (dogs ?w' this) \<noteq> None"
    proof (cases "timer (dogs w this)")
      case None
      with ok g have "?m = []" by (simp add: registry_ok_def)
      with None show ?thesis by (simp add: p(4))
    next
      case (Some n)
      then show ?thesis by (simp add: p(4))
    qed
    ultimately show ?thesis
      using sorted by (simp add: registry_ok_def g table list_all_iff)
  qed
qed

lemma removeSubscriber_ok:
  assumes ok: "registry_ok g w" and own: "g = this \<or> watchDog (subs w s) \<noteq> Some g"
  shows "registry_ok g (snd (removeSubscriber this s w))"
proof (cases "watchDog (subs w s)")
  case None
  then show ?thesis using ok by (simp add: removeSubscriber_unset)
next
  case (Some g')
  note wd = this
  show ?thesis
  proof (cases "watchDogData (subs w s)")
    case None
    with wd show ?thesis using ok by (simp add: removeSubscriber_nodata)
  next
    case (Some d)
    show ?thesis
    proof (cases "keepAlive (subs w s)
        \<and> key (datas w d) \<in> fst ` set (watchdogDataMap (dogs w this))")
      case False
      then have "removeSubscriber this s w = (Throw AssertionError, w)"
        using removeSubscriber_refused [OF wd Some] by blast
      then show ?thesis using ok by simp
    next
      case True
      then have a: "keepAlive (subs w s)"
        and b: "key (datas w d) \<in> fst ` set (watchdogDataMap (dogs w this))" by auto
      note p = removeSubscriber_proceeds [OF wd Some a b]
      let ?w' = "snd (removeSubscriber this s w)"
      show ?thesis
      proof (cases "g = this")
        case g: True
        have table: "watchdogDataMap (dogs ?w' g)
            = filter (\<lambda>kv. fst kv \<noteq> key (datas w d)) (watchdogDataMap (dogs w g))"
          by (simp add: g p(3) obj_delete_def)
        show ?thesis
        proof (rule registry_ok_shrink [OF ok table])
          show "timer (dogs ?w' g) =
              (if filter (\<lambda>kv. fst kv \<noteq> key (datas w d)) (watchdogDataMap (dogs w g)) = []
               then None else timer (dogs w g))"
            by (simp add: g p(4) obj_delete_def)
          show "counter (dogs ?w' g) = counter (dogs w g)"
            by (simp add: g removeSubscriber_dog_fields)
          show "datas ?w' = datas w" by (rule removeSubscriber_datas)
          show "nextData ?w' = nextData w" by (rule removeSubscriber_nextData)
          fix k' d'
          assume m: "(k', d') \<in> set (watchdogDataMap (dogs w g))"
            and "fst (k', d') \<noteq> key (datas w d)"
          then have "subscriber (datas w d') \<noteq> s"
            using registry_okD(1) [OF ok m] registry_okD(5) [OF ok m] Some by auto
          then show "subs ?w' (subscriber (datas w d')) = subs w (subscriber (datas w d'))"
            by (simp add: removeSubscriber_subs_other)
        qed
      next
        case False
        with own wd have foreign: "watchDog (subs w s) \<noteq> Some g" by simp
        show ?thesis
        proof (rule registry_ok_transfer [OF ok])
          fix k' d'
          assume m: "(k', d') \<in> set (watchdogDataMap (dogs w g))"
          then have "subscriber (datas w d') \<noteq> s"
            using registry_okD(4) [OF ok m] foreign by auto
          then show "key (datas ?w' d') = key (datas w d')
              \<and> subscriber (datas ?w' d') = subscriber (datas w d')
              \<and> subs ?w' (subscriber (datas w d')) = subs w (subscriber (datas w d'))"
            by (simp add: removeSubscriber_datas removeSubscriber_subs_other)
        qed (simp_all add: False removeSubscriber_dogs_other removeSubscriber_nextData)
      qed
    qed
  qed
qed

lemma keepAliveFunc_ok:
  assumes "registry_ok g w" and "onClientSeen (subs w s) \<longrightarrow> still e (OnClientSeen s)"
  shows "registry_ok g (snd (keepAliveFunc e s w))"
  by (rule registry_ok_transfer [OF assms(1)]) (simp_all add: keepAliveFunc_frame [OF assms(2)])

lemma forEach_expired_all_ok:
  assumes "\<forall>g. registry_ok g w" and "set ds \<subseteq> snd ` set (watchdogDataMap (dogs w this))"
    and "distinct ds"
    and "\<forall>d \<in> set ds. still e (WatchdogReset (subscriber (datas w d)))"
  shows "\<forall>g. registry_ok g (snd (forEach_expired e this ds w))"
  using assms
proof (induction ds arbitrary: w)
  case Nil
  then show ?case by simp
next
  case (Cons d ds)
  let ?s = "subscriber (datas w d)"
  let ?w1 = "snd (removeSubscriber this ?s w)"
  define w2 where "w2 = logged (WatchdogReset ?s) ?w1"
  from Cons.prems(1) have ok: "registry_ok this w" by simp
  from Cons.prems obtain k where a: "(k, d) \<in> set (watchdogDataMap (dogs w this))"
    by auto
  note r = removeSubscriber_entry [OF ok a]
  have q: "still e (WatchdogReset ?s)" using Cons.prems(4) by simp
  have o: "snd (outcall e (WatchdogReset ?s) ?w1) = w2"
    unfolding w2_def by (rule outcall_still [OF q])
  have all2: "\<forall>g. registry_ok g w2"
  proof
    fix g
    have "g = this \<or> watchDog (subs w ?s) \<noteq> Some g"
      using registry_okD(4) [OF ok a] by auto
    with Cons.prems(1) have "registry_ok g ?w1"
      by (intro removeSubscriber_ok) simp_all
    then show "registry_ok g w2"
      unfolding w2_def by (rule registry_ok_transfer) simp_all
  qed
  show ?case
  proof (cases "fst (outcall e (WatchdogReset ?s) ?w1) = Return ()")
    case False
    then have "snd (forEach_expired e this (d # ds) w) = w2"
      by (simp only: forEach_expired_Cons [OF ok a] if_False o)
    with all2 show ?thesis by simp
  next
    case True
    then have unfold: "forEach_expired e this (d # ds) w = forEach_expired e this ds w2"
      by (simp only: forEach_expired_Cons [OF ok a] simp_thms if_True o)
    have table2: "watchdogDataMap (dogs w2 this)
        = filter (\<lambda>kd. snd kd \<noteq> d) (watchdogDataMap (dogs w this))"
      by (simp add: w2_def r(2))
    have sub2: "set ds \<subseteq> snd ` set (watchdogDataMap (dogs w2 this))"
    proof
      fix x assume x: "x \<in> set ds"
      with Cons.prems(2) obtain kx where "(kx, x) \<in> set (watchdogDataMap (dogs w this))"
        by auto
      moreover from x Cons.prems(3) have "x \<noteq> d" by auto
      ultimately show "x \<in> snd ` set (watchdogDataMap (dogs w2 this))"
        by (force simp add: table2)
    qed
    have dist2: "distinct ds" using Cons.prems(3) by simp
    have datas2: "datas w2 = datas w" by (simp add: w2_def removeSubscriber_datas)
    have q2: "\<forall>d \<in> set ds. still e (WatchdogReset (subscriber (datas w2 d)))"
      using Cons.prems(4) by (simp add: datas2)
    show ?thesis
      unfolding unfold by (rule Cons.IH [OF all2 sub2 dist2 q2])
  qed
qed

lemma visit_subscriber_all_ok:
  assumes all: "\<forall>g. registry_ok g w" and still: "still_pass e this w"
  shows "\<forall>g. registry_ok g (snd (visit_subscriber e this w))"
proof -
  define b where "b = expiredSubscribers e this w"
  define w3 where "w3 = (if b \<noteq> [] then logged (Emit this ''timeout'' b) (visited e this w)
                         else visited e this w)"
  define p where "p = (if b \<noteq> [] then emit e this ''timeout'' b (visited e this w)
        else (Return (), visited e this w))"
  have qe: "still e (Emit this ''timeout'' b)"
    and qr: "\<forall>d \<in> set b. still e (WatchdogReset (subscriber (datas w d)))"
    using still by (simp_all add: still_pass_def b_def)
  have p3: "snd p = w3"
    by (simp add: p_def w3_def emit_def outcall_still [OF qe])
  have v: "visit_subscriber e this w = and_then p (\<lambda>_ w'. forEach_expired e this b w')"
    by (simp only: visit_subscriber_unfold b_def [symmetric] p_def [symmetric])
  have all3: "\<forall>g. registry_ok g w3"
  proof
    fix g
    from all have "registry_ok g w" by simp
    then show "registry_ok g w3"
      by (rule registry_ok_transfer)
        (simp_all add: w3_def visited_frame visited_datas)
  qed
  have table3: "watchdogDataMap (dogs w3 this) = watchdogDataMap (dogs w this)"
    by (simp add: w3_def visited_frame)
  have b_sub: "set b \<subseteq> snd ` set (watchdogDataMap (dogs w3 this))"
    by (auto simp add: b_def expiredSubscribers_eq obj_values_def table3)
  have b_dist: "distinct b"
    using registry_ok_distinct_values [of this w] all
    by (simp add: b_def expiredSubscribers_eq obj_values_def)
  have q3: "\<forall>d \<in> set b. still e (WatchdogReset (subscriber (datas w3 d)))"
    using qr by (simp add: w3_def visited_datas)
  note F = forEach_expired_all_ok [OF all3 b_sub b_dist q3]
  show ?thesis
  proof (cases "fst p")
    case (Return u)
    then have "p = (Return (), w3)" using p3 by (simp add: prod_eq_iff)
    then show ?thesis using F by (simp add: v)
  next
    case (Throw x)
    then have "p = (Throw x, w3)" using p3 by (simp add: prod_eq_iff)
    then show ?thesis using all3 by (simp add: v)
  qed
qed

lemma step_ok:
  assumes all: "\<forall>g. registry_ok g w" and "proper x w"
    and hooks: "\<And>s. quiet e (OnClientSeen s)" and others: "\<And>c. still e c"
  shows "\<forall>g. registry_ok g (step e x w)"
proof (cases x)
  case (New this)
  with all show ?thesis by (simp add: constructor_ok)
next
  case (Add this s t)
  with all show ?thesis by (simp add: addSubscriber_ok hooks)
next
  case (Remove this s)
  with assms(1,2) show ?thesis by (auto intro!: removeSubscriber_ok)
next
  case (KeepAlive s)
  with all show ?thesis by (simp add: keepAliveFunc_ok others)
next
  case (Fire this)
  have "still_pass e this w" by (simp add: still_pass_def others)
  with all visit_subscriber_all_ok [OF all, of e this] Fire show ?thesis by simp
next
  case (Clock t)
  show ?thesis
  proof
    fix g
    from all have "registry_ok g w" by simp
    then show "registry_ok g (step e x w)"
      unfolding Clock by (rule registry_ok_transfer) simp_all
  qed
qed

lemma run_ok:
  assumes "\<And>s. quiet e (OnClientSeen s)" and "\<And>c. still e c"
  shows "\<forall>g. registry_ok g w \<Longrightarrow> proper_run e xs w \<Longrightarrow> \<forall>g. registry_ok g (run e xs w)"
proof (induction xs arbitrary: w)
  case Nil
  then show ?case by simp
next
  case (Cons x xs)
  from Cons.prems have "\<forall>g. registry_ok g (step e x w)"
    by (intro step_ok assms) simp_all
  moreover from Cons.prems have "proper_run e xs (step e x w)" by simp
  ultimately have "\<forall>g. registry_ok g (run e xs (step e x w))"
    by (rule Cons.IH)
  then show ?case by simp
qed

lemma run_start_ok:
  assumes "\<And>s. quiet e (OnClientSeen s)" and "\<And>c. still e c"
    and "proper_run e xs start"
  shows "registry_ok g (run e xs start)"
  using run_ok [OF assms(1,2), of start xs] assms(3) by (simp add: start_ok)


section \<open>The properties\<close>

text \<open>
  Claim C1, as amended. In a pass over a registry in order that classifies one or more
  entries (so also two or more) as expired, every entry of the batch is in the table and
  has its \<open>keepAlive\<close> when the pass starts, and the pass makes exactly one \<open>emit\<close>, whatever
  the listeners and the subscribers do: the ``timeout'' notification with the whole batch.
  The listeners are called before anything is removed: the store they see has the table
  and \<open>subscriberCount\<close> of the start of the pass and every subscriber as it was. When
  the listeners and the \<open>watchdogReset()\<close> of the batch return without changing the store
  (\<open>quiet_pass\<close>), the pass returns normally, every entry of the batch is out of the table
  at its end, its subscriber has lost \<open>keepAlive\<close> and \<open>_watchDog\<close>, and \<open>subscriberCount\<close>
  has gone down by the length of the batch.
\<close>

theorem timeout_batch_before_eviction:
  assumes "registry_ok this w" and "expiredSubscribers e this w \<noteq> []"
  shows "(\<exists>h. emits (snd (visit_subscriber e this w))
               = emits w @ [(Emit this ''timeout'' (expiredSubscribers e this w), h)]
            \<and> watchdogDataMap (dogs h this) = watchdogDataMap (dogs w this)
            \<and> subscriberCount this h = subscriberCount this w
            \<and> subs h = subs w)
    \<and> (\<forall>d \<in> set (expiredSubscribers e this w).
          d \<in> set (obj_values (watchdogDataMap (dogs w this)))
          \<and> keepAlive (subs w (subscriber (datas w d))))
    \<and> (quiet_pass e this w \<longrightarrow>
          fst (visit_subscriber e this w) = Return ()
          \<and> (\<forall>d \<in> set (expiredSubscribers e this w).
                d \<notin> set (obj_values (watchdogDataMap (dogs (snd (visit_subscriber e this w)) this)))
                \<and> \<not> keepAlive (subs (snd (visit_subscriber e this w)) (subscriber (datas w d)))
                \<and> watchDog (subs (snd (visit_subscriber e this w)) (subscriber (datas w d))) = None)
          \<and> subscriberCount this (snd (visit_subscriber e this w))
               = subscriberCount this w - length (expiredSubscribers e this w))"
proof -
  let ?h = "heap.truncate (visited e this w)"
  let ?b = "expiredSubscribers e this w"
  let ?w' = "snd (visit_subscriber e this w)"
  have h: "emits ?w' = emits w @ [(Emit this ''timeout'' ?b, ?h)]
      \<and> watchdogDataMap (dogs ?h this) = watchdogDataMap (dogs w this)
      \<and> subscriberCount this ?h = subscriberCount this w
      \<and> subs ?h = subs w"
    using assms(2) by (simp add: visit_subscriber_emits visited_frame subscriberCount_def)
  then have A: "\<exists>h. emits ?w' = emits w @ [(Emit this ''timeout'' ?b, h)]
            \<and> watchdogDataMap (dogs h this) = watchdogDataMap (dogs w this)
            \<and> subscriberCount this h = subscriberCount this w
            \<and> subs h = subs w"
    by (rule exI)
  have before: "d \<in> set (obj_values (watchdogDataMap (dogs w this)))
      \<and> keepAlive (subs w (subscriber (datas w d)))"
    if d: "d \<in> set ?b" for d
  proof -
    from d have v: "d \<in> set (obj_values (watchdogDataMap (dogs w this)))"
      by (simp add: expiredSubscribers_eq)
    then obtain k where a: "(k, d) \<in> set (watchdogDataMap (dogs w this))"
      by (auto simp add: obj_values_def)
    show ?thesis
      using v registry_okD(6) [OF assms(1) a] by simp
  qed
  have B: "fst (visit_subscriber e this w) = Return ()
      \<and> (\<forall>d \<in> set ?b.
            d \<notin> set (obj_values (watchdogDataMap (dogs ?w' this)))
            \<and> \<not> keepAlive (subs ?w' (subscriber (datas w d)))
            \<and> watchDog (subs ?w' (subscriber (datas w d))) = None)
      \<and> subscriberCount this ?w' = subscriberCount this w - length ?b"
    if q: "quiet_pass e this w"
  proof -
    note V = visit_subscriber_ok [OF assms(1) q]
    have each: "d \<notin> set (obj_values (watchdogDataMap (dogs ?w' this)))
        \<and> \<not> keepAlive (subs ?w' (subscriber (datas w d)))
        \<and> watchDog (subs ?w' (subscriber (datas w d))) = None"
      if d: "d \<in> set ?b" for d
    proof -
      have "d \<notin> set (obj_values (watchdogDataMap (dogs ?w' this)))"
        using d by (auto simp add: V(3) obj_values_def)
      moreover have "subscriber (datas w d) \<in> (\<lambda>d. subscriber (datas w d)) ` set ?b"
        using d by (rule imageI)
      ultimately show ?thesis
        by (simp add: V(5))
    qed
    have count: "subscriberCount this ?w' = subscriberCount this w - length ?b"
      using length_filter_values [OF registry_ok_distinct_values [OF assms(1)]]
      by (simp add: subscriberCount_def obj_keys_def V(3) expiredSubscribers_eq obj_values_def)
    from V(1) each count show ?thesis by blast
  qed
  from A before B show ?thesis by blast
qed

theorem timeout_batch_before_eviction_witness:
  "registry_ok 0 sweep_ready \<and> expiredSubscribers silent 0 sweep_ready = [0, 1]
   \<and> quiet_pass silent 0 sweep_ready
   \<and> fst (visit_subscriber silent 0 sweep_ready) = Return ()
   \<and> map fst (emits (snd (visit_subscriber silent 0 sweep_ready))) = [Emit 0 ''timeout'' [0, 1]]
   \<and> subscriberCount 0 sweep_ready = 3
   \<and> subscriberCount 0 (snd (visit_subscriber silent 0 sweep_ready)) = 1
   \<and> \<not> keepAlive (subs (snd (visit_subscriber silent 0 sweep_ready)) 1)
   \<and> \<not> keepAlive (subs (snd (visit_subscriber silent 0 sweep_ready)) 2)
   \<and> expiredSubscribers throwing 0 sweep_ready = [0, 1]
   \<and> map fst (emits (snd (visit_subscriber throwing 0 sweep_ready))) = [Emit 0 ''timeout'' [0, 1]]
   \<and> expiredSubscribers reregistering 0 sweep_ready = [0, 1]
   \<and> map fst (emits (snd (visit_subscriber reregistering 0 sweep_ready)))
       = [Emit 0 ''timeout'' [0, 1]]
   \<and> subscriberCount 0 (snd (visit_subscriber reregistering 0 sweep_ready)) = 3
   \<and> keepAlive (subs (snd (visit_subscriber reregistering 0 sweep_ready)) 1)"
proof -
  have ne: "expiredSubscribers silent 0 sweep_ready \<noteq> []"
    by (simp add: sweep_ready_expired)
  have ne': "expiredSubscribers throwing 0 sweep_ready \<noteq> []"
    by (simp add: sweep_ready_expired_throwing)
  have ne'': "expiredSubscribers reregistering 0 sweep_ready \<noteq> []"
    by (simp add: sweep_ready_expired_reregistering)
  have f: "subscriberCount 0 sweep_ready = 3" "emits sweep_ready = []"
    "subscriber (datas sweep_ready 0) = 1" "subscriber (datas sweep_ready (Suc 0)) = 2"
    by (simp_all add: sweep_ready_eq subscriberCount_def obj_keys_def emits_def)
  have r: "subscriberCount 0 (snd (visit_subscriber reregistering 0 sweep_ready)) = 3"
    "keepAlive (subs (snd (visit_subscriber reregistering 0 sweep_ready)) 1)"
    by (simp_all add: reregistering_pass subscriberCount_def obj_keys_def del: One_nat_def)
  show ?thesis
    using sweep_ready_ok quiet_pass_silent [of 0 sweep_ready] r
      timeout_batch_before_eviction [OF sweep_ready_ok ne]
      timeout_batch_before_eviction [OF sweep_ready_ok ne']
      timeout_batch_before_eviction [OF sweep_ready_ok ne'']
    by (auto simp add: sweep_ready_expired sweep_ready_expired_throwing
        sweep_ready_expired_reregistering f)
qed

text \<open>
  Claim C1 as it was stated fails. In \<open>sweep_ready\<close> the pass classifies the entries of
  subscribers 1 and 2 as expired. It makes one \<open>emit\<close> with both in the batch, and the
  store its listeners see still has \<open>subscriberCount\<close> 3 and the \<open>keepAlive\<close> of both
  subscribers: line 185 emits before the \<open>forEach\<close> of line 187 removes.
\<close>

theorem timeout_seen_before_removal:
  "length (emits (snd (visit_subscriber silent 0 sweep_ready))) = 1
   \<and> fst (hd (emits (snd (visit_subscriber silent 0 sweep_ready)))) = Emit 0 ''timeout'' [0, 1]
   \<and> subscriberCount 0 (snd (hd (emits (snd (visit_subscriber silent 0 sweep_ready))))) = 3
   \<and> watchdogDataMap (dogs (snd (hd (emits (snd (visit_subscriber silent 0 sweep_ready))))) 0)
       = [(1, 0), (2, 1), (3, 2)]
   \<and> keepAlive (subs (snd (hd (emits (snd (visit_subscriber silent 0 sweep_ready))))) 1)
   \<and> keepAlive (subs (snd (hd (emits (snd (visit_subscriber silent 0 sweep_ready))))) 2)"
proof -
  have "emits sweep_ready = []"
    by (simp add: sweep_ready_eq emits_def)
  then have e: "emits (snd (visit_subscriber silent 0 sweep_ready))
      = [(Emit 0 ''timeout'' [0, 1], heap.truncate (visited silent 0 sweep_ready))]"
    by (simp add: visit_subscriber_emits sweep_ready_expired)
  have "watchdogDataMap (dogs (visited silent 0 sweep_ready) 0) = [(1, 0), (2, 1), (3, 2)]"
    by (simp add: visited_frame sweep_ready_eq)
  moreover have "keepAlive (subs sweep_ready 1)" "keepAlive (subs sweep_ready 2)"
    by (simp_all add: sweep_ready_eq)
  ultimately show ?thesis
    by (simp add: e visited_frame subscriberCount_def obj_keys_def del: One_nat_def)
qed



text \<open>
  Claim C3, as amended. When \<open>addSubscriber\<close> returns and its \<open>onClientSeen\<close> hook, if there
  is one, has left the store as it was, the entry it has stored under the returned key is
  the object the subscriber points at, and its timeout is the default of 1000 ms when the
  timeout passed is 0 or \<open>NaN\<close>, the two numbers that \<open>||\<close> takes for false; every other
  number, a negative one and an infinity included, is stored as it was passed.
\<close>

theorem addSubscriber_stored_timeout:
  assumes "addSubscriber e this s t w = (Return k, w')"
    and "onClientSeen (subs w s) \<longrightarrow> still e (OnClientSeen s)"
  shows "map_of (watchdogDataMap (dogs w' this)) k = Some (nextData w)
     \<and> watchDogData (subs w' s) = Some (nextData w)
     \<and> timeout (datas w' (nextData w)) = (if t = Finite 0 \<or> t = NaN then Finite 1000 else t)"
proof -
  note a = addSubscriber_Return [OF assms(1)]
  have ret: "fst (callee e (OnClientSeen s) (heap.truncate (stored this s t w))) = Return ()"
    if hook: "onClientSeen (subs w s)"
  proof -
    obtain r h where c: "callee e (OnClientSeen s) (heap.truncate (stored this s t w)) = (r, h)"
      by (cases "callee e (OnClientSeen s) (heap.truncate (stored this s t w))")
    show ?thesis
    proof (cases r)
      case (Return u)
      with c show ?thesis by simp
    next
      case (Throw x)
      with assms(1) addSubscriber_hook_throws [OF a hook c [unfolded Throw]] show ?thesis
        by simp
    qed
  qed
  with assms(2) have hook: "onClientSeen (subs w s) \<longrightarrow> still e (OnClientSeen s)
      \<and> fst (callee e (OnClientSeen s) (heap.truncate (stored this s t w))) = Return ()"
    by simp
  note p = addSubscriber_proceeds [OF a hook]
  from assms(1) have w': "w' = snd (addSubscriber e this s t w)" by simp
  note k = addSubscriber_Return_bound(2) [OF assms(1)]
  show ?thesis
    unfolding w' k by (simp add: p(2) p(5) p(6) map_of_obj_set or_else_default)
qed

theorem addSubscriber_stored_timeout_witness:
  "addSubscriber silent 0 1 (Finite 0) (constructor 0 hooked)
     = (Return 1, snd (addSubscriber silent 0 1 (Finite 0) (constructor 0 hooked)))
   \<and> onClientSeen (subs (constructor 0 hooked) 1)
   \<and> still silent (OnClientSeen 1)
   \<and> map_of (watchdogDataMap
        (dogs (snd (addSubscriber silent 0 1 (Finite 0) (constructor 0 hooked))) 0)) 1
       = Some 0
   \<and> timeout (datas (snd (addSubscriber silent 0 1 (Finite 0) (constructor 0 hooked))) 0)
       = Finite 1000
   \<and> addSubscriber silent 0 1 (Finite 250) (constructor 0 start)
     = (Return 1, snd (addSubscriber silent 0 1 (Finite 250) (constructor 0 start)))
   \<and> \<not> onClientSeen (subs (constructor 0 start) 1)
   \<and> timeout (datas (snd (addSubscriber silent 0 1 (Finite 250) (constructor 0 start))) 0)
       = Finite 250"
proof -
  have f: "watchdogReset (subs (constructor 0 hooked) 1)"
    "\<not> keepAlive (subs (constructor 0 hooked) 1)"
    "onClientSeen (subs (constructor 0 hooked) 1)"
    "watchdogDataMap (dogs (constructor 0 hooked) 0) = []"
    "timer (dogs (constructor 0 hooked) 0) = None"
    "counter (dogs (constructor 0 hooked) 0) = 0" "nextData (constructor 0 hooked) = 0"
    by (simp_all add: constructor_def hooked_def start_def fresh_subscriber_def)
  have s: "still silent (OnClientSeen 1)"
    by (simp add: still_def silent_def)
  have h: "onClientSeen (subs w 1) \<longrightarrow> still silent (OnClientSeen 1)
      \<and> fst (callee silent (OnClientSeen 1) (heap.truncate (stored 0 1 t w))) = Return ()"
    for t w
    by (simp add: still_def silent_def)
  have "fst (addSubscriber silent 0 1 (Finite 0) (constructor 0 hooked)) = Return 1"
    by (simp add: addSubscriber_proceeds(1) [OF f(1,2) h] f del: One_nat_def)
  then have r: "addSubscriber silent 0 1 (Finite 0) (constructor 0 hooked)
      = (Return 1, snd (addSubscriber silent 0 1 (Finite 0) (constructor 0 hooked)))"
    by (simp add: prod_eq_iff)
  have "fst (addSubscriber silent 0 1 (Finite 250) (constructor 0 start)) = Return 1"
    by (simp add: addSubscriber_proceeds(1) [OF fresh_at_start(1,2) h] fresh_at_start
        del: One_nat_def)
  then have r': "addSubscriber silent 0 1 (Finite 250) (constructor 0 start)
      = (Return 1, snd (addSubscriber silent 0 1 (Finite 250) (constructor 0 start)))"
    by (simp add: prod_eq_iff)
  have n: "onClientSeen (subs w 1) \<longrightarrow> still silent (OnClientSeen 1)" for w
    by (simp add: still_def silent_def)
  show ?thesis
    using r r' s f(3) fresh_at_start(7)
      addSubscriber_stored_timeout [OF r n]
      addSubscriber_stored_timeout [OF r' n]
    by (simp add: fresh_at_start f del: One_nat_def)
qed

text \<open>
  Claim C3 as it was stated fails for a negative timeout: \<open>addSubscriber\<close> with -5 on a
  fresh WatchDog returns key 1 and stores the entry with timeout -5, not 1000.
\<close>

theorem addSubscriber_negative_timeout:
  "fst (addSubscriber silent 0 1 (Finite (- 5)) (constructor 0 start)) = Return 1
   \<and> watchdogDataMap (dogs (snd (addSubscriber silent 0 1 (Finite (- 5)) (constructor 0 start))) 0)
       = [(1, 0)]
   \<and> timeout (datas (snd (addSubscriber silent 0 1 (Finite (- 5)) (constructor 0 start))) 0)
       = Finite (- 5)
   \<and> timeout (datas (snd (addSubscriber silent 0 1 (Finite (- 5)) (constructor 0 start))) 0)
       \<noteq> Finite 1000"
proof -
  have h: "onClientSeen (subs (constructor 0 start) 1) \<longrightarrow> still silent (OnClientSeen 1)
      \<and> fst (callee silent (OnClientSeen 1)
               (heap.truncate (stored 0 1 (Finite (- 5)) (constructor 0 start)))) = Return ()"
    by (simp add: still_def silent_def)
  show ?thesis
    by (simp add: addSubscriber_proceeds [OF fresh_at_start(1,2) h] fresh_at_start or_else_def
        del: One_nat_def)
qed

text \<open>
  Claim C4, as amended. When every \<open>onClientSeen()\<close> returns and leaves the WatchDog as it
  is, and the listeners and the \<open>watchdogReset()\<close> hooks do nothing to the WatchDog that
  breaks the correspondence (\<open>tame\<close>), then after the constructor and any sequence of calls
  of the module, on this WatchDog or on others, whether they return or throw, the timer of
  the WatchDog is set exactly when \<open>subscriberCount\<close> is positive. More generally every
  single step keeps that correspondence where it holds. So the \<open>addSubscriber\<close> that makes
  the count positive sets the timer, and the \<open>removeSubscriber\<close> or the eviction that brings
  the count to 0 clears it.
\<close>

theorem timer_set_iff_subscribers:
  assumes "tame e this"
  shows "((timer (dogs (run e xs (constructor this w)) this) \<noteq> None)
      = (0 < subscriberCount this (run e xs (constructor this w))))
   \<and> (timer_matches this w \<longrightarrow> timer_matches this (step e x w))"
proof -
  have "timer_matches this (run e xs (constructor this w))"
    by (rule run_timer_matches [OF assms]) (rule constructor_timer_matches(1))
  then show ?thesis
    by (simp add: step_timer_matches [OF assms]) (simp add: timer_matches_def)
qed

theorem timer_set_iff_subscribers_witness:
  "tame silent 0
   \<and> timer_matches 0 start
   \<and> timer (dogs start 0) = None
   \<and> timer_matches 0 (step silent (Add 0 1 (Finite 50)) start)
   \<and> timer (dogs (step silent (Add 0 1 (Finite 50)) start) 0) = Some 1000
   \<and> timer_matches 0 one_registered
   \<and> timer_matches 0 (step silent (Remove 0 1) one_registered)
   \<and> timer (dogs (step silent (Remove 0 1) one_registered) 0) = None
   \<and> timer_matches 0 (step silent (Clock 2000) one_registered)
   \<and> timer_matches 0 (step silent (Fire 0) (step silent (Clock 2000) one_registered))
   \<and> timer (dogs (step silent (Fire 0) (step silent (Clock 2000) one_registered)) 0) = None
   \<and> tame reregistering 0
   \<and> timer_matches 0 (step reregistering (Fire 0) (step silent (Clock 2000) one_registered))
   \<and> timer (dogs (step reregistering (Fire 0) (step silent (Clock 2000) one_registered)) 0)
       = Some 1000
   \<and> subscriberCount 0 (step reregistering (Fire 0) (step silent (Clock 2000) one_registered)) = 1"
proof -
  note T = timer_set_iff_subscribers [OF silent_tame [of 0]]
  note R = timer_set_iff_subscribers [OF reregistering_tame [of 0]]
  have a: "timer_matches 0 start" "timer (dogs start 0) = None"
    by (simp_all add: timer_matches_def subscriberCount_def obj_keys_def start_def)
  have b: "timer_matches 0 one_registered"
    by (simp add: timer_matches_def subscriberCount_def obj_keys_def one_registered_eq)
  have c: "timer (dogs (step silent (Add 0 1 (Finite 50)) start) 0) = Some 1000"
    by (simp add: run_defs)
  have d: "timer (dogs (step silent (Remove 0 1) one_registered) 0) = None"
    by (simp add: one_registered_eq run_defs)
  have e: "timer (dogs (step silent (Fire 0) (step silent (Clock 2000) one_registered)) 0) = None"
    by (simp add: one_registered_eq run_defs)
  have f: "timer_matches 0 (step silent (Clock 2000) one_registered)"
    using b T [of "[]" one_registered "Clock 2000"] by blast
  have g: "timer (dogs (step reregistering (Fire 0) (step silent (Clock 2000) one_registered)) 0)
       = Some 1000"
    "subscriberCount 0 (step reregistering (Fire 0) (step silent (Clock 2000) one_registered)) = 1"
    by (simp_all add: one_registered_eq run_defs reregistering_def world_of_def)
  show ?thesis
    using a b c d e f g silent_tame [of 0] reregistering_tame [of 0]
      T [of "[]" start "Add 0 1 (Finite 50)"]
      T [of "[]" one_registered "Remove 0 1"]
      T [of "[]" "step silent (Clock 2000) one_registered" "Fire 0"]
      R [of "[]" "step silent (Clock 2000) one_registered" "Fire 0"]
    by blast
qed

text \<open>
  Claim C4 as it was stated fails. Subscriber 1 of \<open>hooked\<close> has an \<open>onClientSeen()\<close>, and in
  \<open>throwing\<close> it throws. \<open>addSubscriber\<close> on a fresh WatchDog, whose timer is not set, has
  stored the entry when it calls the hook at line 125, and the exception leaves the
  function before lines 131 to 134 start the timer: the caller gets the exception,
  \<open>subscriberCount\<close> is 1 and the timer is not set.
\<close>

theorem timer_unset_after_throwing_hook:
  "subscriberCount 0 (constructor 0 hooked) = 0
   \<and> timer (dogs (constructor 0 hooked) 0) = None
   \<and> fst (addSubscriber throwing 0 1 (Finite 50) (constructor 0 hooked)) = Throw CallerError
   \<and> subscriberCount 0 (snd (addSubscriber throwing 0 1 (Finite 50) (constructor 0 hooked))) = 1
   \<and> watchdogDataMap (dogs (snd (addSubscriber throwing 0 1 (Finite 50) (constructor 0 hooked))) 0)
       = [(1, 0)]
   \<and> timer (dogs (snd (addSubscriber throwing 0 1 (Finite 50) (constructor 0 hooked))) 0) = None"
proof -
  have f: "watchdogReset (subs (constructor 0 hooked) 1)"
    "\<not> keepAlive (subs (constructor 0 hooked) 1)"
    "onClientSeen (subs (constructor 0 hooked) 1)"
    "watchdogDataMap (dogs (constructor 0 hooked) 0) = []"
    "timer (dogs (constructor 0 hooked) 0) = None"
    "counter (dogs (constructor 0 hooked) 0) = 0" "nextData (constructor 0 hooked) = 0"
    by (simp_all add: constructor_def hooked_def start_def fresh_subscriber_def)
  have c: "callee throwing (OnClientSeen 1)
             (heap.truncate (stored 0 1 (Finite 50) (constructor 0 hooked)))
           = (Throw CallerError, heap.truncate (stored 0 1 (Finite 50) (constructor 0 hooked)))"
    by (simp add: throwing_def)
  note t = addSubscriber_hook_throws [OF f(1,2,3) c]
  show ?thesis
    by (simp add: t f subscriberCount_def obj_keys_def del: One_nat_def)
qed



text \<open>
  Claim C6. \<open>removeSubscriber\<close> of a subscriber that is not registered (its \<open>_watchDog\<close> is
  not set) returns normally and leaves the whole world as it was: table, counter, timer
  and everything else. A \<open>removeSubscriber\<close> that has returned can be repeated: the second
  call returns normally too and changes nothing.
\<close>

theorem removeSubscriber_idempotent:
  "(watchDog (subs w s) = None \<longrightarrow> removeSubscriber this s w = (Return (), w))
   \<and> (removeSubscriber this s w = (Return (), w1)
        \<longrightarrow> removeSubscriber this s w1 = (Return (), w1))"
  by (simp add: removeSubscriber_unset removeSubscriber_Return)

theorem removeSubscriber_idempotent_witness:
  "watchDog (subs one_registered 2) = None
   \<and> removeSubscriber 0 2 one_registered = (Return (), one_registered)
   \<and> removeSubscriber 0 1 one_registered = (Return (), snd (removeSubscriber 0 1 one_registered))
   \<and> removeSubscriber 0 1 (snd (removeSubscriber 0 1 one_registered))
       = (Return (), snd (removeSubscriber 0 1 one_registered))"
proof -
  have a: "watchDog (subs one_registered 2) = None"
    by (simp add: one_registered_eq run_defs)
  have "fst (removeSubscriber 0 1 one_registered) = Return ()"
    by (simp add: one_registered_eq run_defs)
  then have b: "removeSubscriber 0 1 one_registered
      = (Return (), snd (removeSubscriber 0 1 one_registered))"
    by (simp add: prod_eq_iff)
  show ?thesis
    using a b removeSubscriber_idempotent [of one_registered 2 0]
      removeSubscriber_idempotent [of one_registered 1 0 "snd (removeSubscriber 0 1 one_registered)"]
    by blast
qed

text \<open>
  Claim C7. \<open>removeSubscriber\<close> never calls \<open>watchdogReset()\<close>: whatever the subscriber and
  however the call ends, it makes no call out of the module at all, and in the store it
  touches nothing but the table and the timer of its own WatchDog and the three fields
  \<open>_watchDog\<close>, \<open>_watchDogData\<close> and \<open>keepAlive\<close> of the subscriber. Of the other functions
  of the module, \<open>addSubscriber\<close>, \<open>keepAliveFunc\<close>, the constructor and \<open>shutdown\<close> call no
  \<open>watchdogReset()\<close> either, whatever their callees do, which leaves the \<open>forEach\<close> of
  \<open>_visit_subscriber\<close> as the only place where it is called.
\<close>

theorem removeSubscriber_never_resets:
  "calls (snd (removeSubscriber this s w)) = calls w
   \<and> datas (snd (removeSubscriber this s w)) = datas w
   \<and> clock (snd (removeSubscriber this s w)) = clock w
   \<and> nextData (snd (removeSubscriber this s w)) = nextData w
   \<and> (subs (snd (removeSubscriber this s w)))(s := subs w s) = subs w
   \<and> (dogs (snd (removeSubscriber this s w)))(this := dogs w this) = dogs w
   \<and> counter (dogs (snd (removeSubscriber this s w)) this) = counter (dogs w this)
   \<and> currentTime (dogs (snd (removeSubscriber this s w)) this) = currentTime (dogs w this)
   \<and> watchdogReset (subs (snd (removeSubscriber this s w)) s) = watchdogReset (subs w s)
   \<and> onClientSeen (subs (snd (removeSubscriber this s w)) s) = onClientSeen (subs w s)
   \<and> resets (snd (addSubscriber e this s t w)) = resets w
   \<and> resets (snd (keepAliveFunc e s w)) = resets w
   \<and> resets (constructor this w) = resets w
   \<and> resets (snd (shutdown this w)) = resets w"
  by (simp only: removeSubscriber_calls removeSubscriber_datas removeSubscriber_clock
      removeSubscriber_nextData removeSubscriber_subs removeSubscriber_dogs
      removeSubscriber_dog_fields removeSubscriber_sub_fields addSubscriber_resets
      keepAliveFunc_resets constructor_resets shutdown_resets simp_thms)

text \<open>
  Claim C8. The bound \<open>keepAlive\<close> of a subscriber that has no entry (its \<open>_watchDog\<close> or
  its \<open>_watchDogData\<close> is not set) throws and leaves the world as it was, so no entry is
  updated and no hook is called. That is the state every \<open>removeSubscriber\<close> that returns
  leaves the subscriber in: there the failing assertion on \<open>_watchDog\<close> is what throws.
\<close>

theorem keepAlive_without_entry_throws:
  "(watchDog (subs w s) = None \<or> watchDogData (subs w s) = None
      \<longrightarrow> (\<exists>x. keepAliveFunc e s w = (Throw x, w)))
   \<and> (removeSubscriber this s w = (Return (), w1)
        \<longrightarrow> keepAliveFunc e s w1 = (Throw AssertionError, w1))"
proof -
  have "\<exists>x. keepAliveFunc e s w = (Throw x, w)"
    if "watchDog (subs w s) = None \<or> watchDogData (subs w s) = None"
  proof (cases "watchDog (subs w s)")
    case None
    then show ?thesis by (simp add: keepAliveFunc_unset)
  next
    case (Some g)
    with that show ?thesis by (simp add: keepAliveFunc_nodata)
  qed
  then show ?thesis
    by (simp add: removeSubscriber_Return keepAliveFunc_unset)
qed

theorem keepAlive_without_entry_throws_witness:
  "watchDog (subs one_registered 2) = None
   \<and> keepAliveFunc silent 2 one_registered = (Throw AssertionError, one_registered)
   \<and> removeSubscriber 0 1 one_registered = (Return (), snd (removeSubscriber 0 1 one_registered))
   \<and> keepAliveFunc silent 1 (snd (removeSubscriber 0 1 one_registered))
       = (Throw AssertionError, snd (removeSubscriber 0 1 one_registered))"
proof -
  have a: "watchDog (subs one_registered 2) = None"
    by (simp add: one_registered_eq run_defs)
  have "fst (removeSubscriber 0 1 one_registered) = Return ()"
    by (simp add: one_registered_eq run_defs)
  then have b: "removeSubscriber 0 1 one_registered
      = (Return (), snd (removeSubscriber 0 1 one_registered))"
    by (simp add: prod_eq_iff)
  have c: "keepAliveFunc silent 2 one_registered = (Throw AssertionError, one_registered)"
    using a by (rule keepAliveFunc_unset)
  show ?thesis
    using a b c keepAlive_without_entry_throws [of one_registered 2 silent 0]
      keepAlive_without_entry_throws [of one_registered 1 silent 0
        "snd (removeSubscriber 0 1 one_registered)"]
    by blast
qed

text \<open>
  Claim C9. A pass over a registry in order increments \<open>visitCount\<close> of every entry
  that is in the table when the pass starts by exactly one, whether the pass classifies
  the entry as expired or not: that is its value when the \<open>_.filter\<close> of the pass is done,
  before any listener or subscriber has been called, and its value at the end of the pass,
  evicted or not and however the pass ends, when no callee writes the field itself
  (\<open>keeps_visitCount\<close>).
\<close>

theorem visitCount_incremented_once:
  assumes "registry_ok this w" and "(k, d) \<in> set (watchdogDataMap (dogs w this))"
  shows "visitCount (datas (visited e this w) d) = visitCount (datas w d) + 1
    \<and> (keeps_visitCount e d \<longrightarrow>
         visitCount (datas (snd (visit_subscriber e this w)) d) = visitCount (datas w d) + 1)"
proof -
  have "count_list (obj_values (watchdogDataMap (dogs w this))) d = 1"
    using registry_ok_distinct_values [OF assms(1)] registry_ok_value [OF assms(2)]
    by (simp add: count_list_distinct obj_values_def)
  then show ?thesis
    by (simp add: visit_subscriber_visitCount registry_okD(3) [OF assms] visited_datas)
qed

theorem visitCount_incremented_once_witness:
  "registry_ok 0 sweep_ready
   \<and> (1, 0) \<in> set (watchdogDataMap (dogs sweep_ready 0))
   \<and> (3, 2) \<in> set (watchdogDataMap (dogs sweep_ready 0))
   \<and> 0 \<in> set (expiredSubscribers silent 0 sweep_ready)
   \<and> 2 \<notin> set (expiredSubscribers silent 0 sweep_ready)
   \<and> keeps_visitCount silent 0 \<and> keeps_visitCount silent 2
   \<and> visitCount (datas (snd (visit_subscriber silent 0 sweep_ready)) 0)
       = visitCount (datas sweep_ready 0) + 1
   \<and> visitCount (datas (snd (visit_subscriber silent 0 sweep_ready)) 2)
       = visitCount (datas sweep_ready 2) + 1
   \<and> keeps_visitCount throwing 0
   \<and> visitCount (datas (snd (visit_subscriber throwing 0 sweep_ready)) 0)
       = visitCount (datas sweep_ready 0) + 1
   \<and> keeps_visitCount reregistering 0
   \<and> visitCount (datas (snd (visit_subscriber reregistering 0 sweep_ready)) 0)
       = visitCount (datas sweep_ready 0) + 1"
proof -
  have a: "(1, 0) \<in> set (watchdogDataMap (dogs sweep_ready 0))"
    and b: "(3, 2) \<in> set (watchdogDataMap (dogs sweep_ready 0))"
    by (simp_all add: sweep_ready_eq)
  show ?thesis
    using sweep_ready_ok a b silent_keeps [of 0] silent_keeps [of 2] throwing_keeps [of 0]
      reregistering_keeps [of 0]
      visitCount_incremented_once [OF sweep_ready_ok a, of silent]
      visitCount_incremented_once [OF sweep_ready_ok b, of silent]
      visitCount_incremented_once [OF sweep_ready_ok a, of throwing]
      visitCount_incremented_once [OF sweep_ready_ok a, of reregistering]
    by (simp add: sweep_ready_expired)
qed

text \<open>
  Claim C10 fails on the code. In \<open>two_dogs\<close> subscriber 2 is registered with WatchDog 1,
  and its entry is the object at address 1, which the table of WatchDog 0 does not hold.
  But both WatchDogs count their keys from 1, so its key 1 is also the key of the entry of
  subscriber 1 in WatchDog 0, and the assertion of line 150 passes:
  \<open>removeSubscriber\<close> of subscriber 2 on WatchDog 0 returns normally, deletes the entry of
  subscriber 1 and stops the timer of WatchDog 0, while subscriber 1 still looks registered
  and the entry of subscriber 2 stays in the table of WatchDog 1.
\<close>

theorem removeSubscriber_of_other_WatchDog:
  "watchDog (subs two_dogs 2) = Some 1
   \<and> watchDogData (subs two_dogs 2) = Some 1
   \<and> watchdogDataMap (dogs two_dogs 0) = [(1, 0)]
   \<and> fst (removeSubscriber 0 2 two_dogs) = Return ()
   \<and> watchdogDataMap (dogs (snd (removeSubscriber 0 2 two_dogs)) 0) = []
   \<and> timer (dogs (snd (removeSubscriber 0 2 two_dogs)) 0) = None
   \<and> watchDog (subs (snd (removeSubscriber 0 2 two_dogs)) 1) = Some 0
   \<and> keepAlive (subs (snd (removeSubscriber 0 2 two_dogs)) 1)
   \<and> watchdogDataMap (dogs (snd (removeSubscriber 0 2 two_dogs)) 1) = [(1, 1)]
   \<and> watchDog (subs (snd (removeSubscriber 0 2 two_dogs)) 2) = None"
proof -
  have f: "watchDog (subs two_dogs 2) = Some 1" "watchDogData (subs two_dogs 2) = Some 1"
    "keepAlive (subs two_dogs 2)"
    "key (datas two_dogs 1) \<in> fst ` set (watchdogDataMap (dogs two_dogs 0))"
    by (simp_all add: two_dogs_eq)
  note p = removeSubscriber_proceeds [OF f]
  have g: "watchdogDataMap (dogs two_dogs 0) = [(1, 0)]"
    "subs two_dogs 1 = \<lparr>watchDog = Some 0, watchDogData = Some 0, watchdogReset = True,
        keepAlive = True, onClientSeen = False\<rparr>"
    "key (datas two_dogs 1) = 1"
    "timer (dogs two_dogs 0) = Some 1000"
    "watchdogDataMap (dogs two_dogs 1) = [(1, 1)]"
    by (simp_all add: two_dogs_eq)
  have other: "dogs (snd (removeSubscriber 0 2 two_dogs)) 1 = dogs two_dogs 1"
    by (simp add: removeSubscriber_dogs_other)
  show ?thesis
    by (simp add: p other f g obj_delete_def del: One_nat_def)
qed

end
